theory Spec2Isabelle
  imports Main
begin

section \<open>Machine integers\<close>

text \<open>
  The solver computes on \<open>u64\<close> (\<open>unsigned long long\<close>) and \<open>u128\<close>
  (\<open>unsigned __int128\<close>) values. They are modelled as natural numbers; every
  operation that can leave the range is followed by the reduction that the C type
  performs. A cast \<open>(u64)v\<close> is \<open>u64 v\<close>; a subtraction \<open>a - b\<close> on an unsigned type of
  width \<open>w\<close> is written \<open>(a + 2 ^ w - b) mod 2 ^ w\<close>.
\<close>

definition u64 :: "nat \<Rightarrow> nat" where
  "u64 v = v mod 2 ^ 64"

definition u128 :: "nat \<Rightarrow> nat" where
  "u128 v = v mod 2 ^ 128"

definition MAX_DIVS :: nat where
  "MAX_DIVS = 16384"

section \<open>fast_solver.c: the result structure\<close>

record Solution =
  a_lo :: nat
  a_hi :: nat
  b_lo :: nat
  b_hi :: nat
  c_lo :: nat
  c_hi :: nat
  found :: int

text \<open>The structure after \<open>memset(&sol, 0, sizeof(sol))\<close>.\<close>

definition zero_sol :: Solution where
  "zero_sol = \<lparr>a_lo = 0, a_hi = 0, b_lo = 0, b_hi = 0, c_lo = 0, c_hi = 0, found = 0\<rparr>"

text \<open>The three conditional swaps of \<open>set_sol\<close>, then the split into 64-bit halves.\<close>

definition sort3 :: "nat \<Rightarrow> nat \<Rightarrow> nat \<Rightarrow> nat \<times> nat \<times> nat" where
  "sort3 a b c =
     (let (a, b) = (if a > b then (b, a) else (a, b));
          (b, c) = (if b > c then (c, b) else (b, c));
          (a, b) = (if a > b then (b, a) else (a, b))
      in (a, b, c))"

definition set_sol :: "Solution \<Rightarrow> nat \<Rightarrow> nat \<Rightarrow> nat \<Rightarrow> Solution" where
  "set_sol s a b c =
     (case sort3 a b c of (a, b, c) \<Rightarrow>
        s\<lparr>a_lo := u64 a, a_hi := u64 (a div 2 ^ 64),
          b_lo := u64 b, b_hi := u64 (b div 2 ^ 64),
          c_lo := u64 c, c_hi := u64 (c div 2 ^ 64),
          found := 1\<rparr>)"

text \<open>The 128-bit values a caller reads back from the (hi, lo) pairs.\<close>

definition sol_a :: "Solution \<Rightarrow> nat" where
  "sol_a s = a_hi s * 2 ^ 64 + a_lo s"

definition sol_b :: "Solution \<Rightarrow> nat" where
  "sol_b s = b_hi s * 2 ^ 64 + b_lo s"

definition sol_c :: "Solution \<Rightarrow> nat" where
  "sol_c s = c_hi s * 2 ^ 64 + c_lo s"

section \<open>fast_solver.c: the modular verifier\<close>

definition mods :: "nat list" where
  "mods = [1000000007, 1000000009, 998244353, 999999937]"

text \<open>One pass of the loop body of \<open>verify128\<close>: true when \<open>(u64)lhs = (u64)rhs\<close>.\<close>

definition verify_mod :: "nat \<Rightarrow> nat \<Rightarrow> nat \<Rightarrow> nat \<Rightarrow> nat \<Rightarrow> bool" where
  "verify_mod md n a b c =
     (let an = u64 (a mod md);
          bn = u64 (b mod md);
          cn = u64 (c mod md);
          nn = n mod md;
          lhs = u128 (4 * an) mod md;
          lhs = u128 (lhs * bn) mod md;
          lhs = u128 (lhs * cn) mod md;
          bc = u128 (bn * cn) mod md;
          ac = u128 (an * cn) mod md;
          ab = u128 (an * bn) mod md;
          sum = u128 (bc + ac + ab) mod md;
          rhs = u128 (nn * sum) mod md
      in u64 lhs = u64 rhs)"

fun verify_loop :: "nat list \<Rightarrow> nat \<Rightarrow> nat \<Rightarrow> nat \<Rightarrow> nat \<Rightarrow> int" where
  "verify_loop [] n a b c = 1"
| "verify_loop (md # ms) n a b c =
     (if verify_mod md n a b c then verify_loop ms n a b c else 0)"

definition verify128 :: "nat \<Rightarrow> nat \<Rightarrow> nat \<Rightarrow> nat \<Rightarrow> int" where
  "verify128 n a b c = verify_loop mods n a b c"

section \<open>fast_solver.c: the divisor enumerator\<close>

text \<open>
  The inner loop \<open>while (temp % d == 0) { exp++; temp /= d; }\<close>. It does not return for
  \<open>temp = 0\<close> or \<open>d = 1\<close>; not returning is the value \<open>None\<close>.
\<close>

partial_function (option) strip_factor :: "nat \<Rightarrow> nat \<Rightarrow> nat \<Rightarrow> (nat \<times> nat) option" where
  "strip_factor temp d e =
     (if temp mod d = 0 then strip_factor (temp div d) d (e + 1) else Some (temp, e))"

declare strip_factor.simps [code]

text \<open>
  The trial-division loop \<open>for (d = 2; d * d <= temp && nfactors < 63; d++)\<close>. The
  product \<open>d * d\<close> and the increment are 64-bit; \<open>temp % d\<close> with \<open>d = 0\<close>
  is undefined behaviour and is the value \<open>None\<close>. The factor array is the list
  \<open>fs\<close>, \<open>nfactors\<close> its length.
\<close>

function trial_loop :: "nat \<Rightarrow> nat \<Rightarrow> (nat \<times> nat) list \<Rightarrow> (nat \<times> (nat \<times> nat) list) option" where
  "trial_loop temp d fs =
     (if u64 (d * d) \<le> temp \<and> length fs < 63 then
        (if d = 0 then None
         else if temp mod d = 0 then
           (case strip_factor temp d 0 of
              None \<Rightarrow> None
            | Some (temp', e) \<Rightarrow> trial_loop temp' (u64 (d + 1)) (fs @ [(d, e)]))
         else trial_loop temp (u64 (d + 1)) fs)
      else Some (temp, fs))"
  by pat_completeness auto
termination
proof (relation "measure (\<lambda>(temp, d, fs). if d = 0 then 0 else if d < 2 ^ 64 then 2 ^ 64 + 1 - d else 2 ^ 64 + 1)")
  show "wf (measure (\<lambda>(temp, d, fs). if d = 0 then 0 else if d < 2 ^ 64 then 2 ^ 64 + 1 - d else 2 ^ 64 + (1::nat)))"
    by simp
next
  fix temp d :: nat and fs :: "(nat \<times> nat) list" and x2 x y
  assume "d \<noteq> 0"
  have "u64 (d + 1) < 2 ^ 64" by (simp add: u64_def)
  moreover have "d < 2 ^ 64 \<Longrightarrow> u64 (d + 1) \<noteq> 0 \<Longrightarrow> u64 (d + 1) = d + 1"
    by (metis Suc_eq_plus1 Suc_lessI mod_less mod_self u64_def)
  ultimately show "((x, u64 (d + 1), fs @ [(d, y)]), temp, d, fs)
      \<in> measure (\<lambda>(temp, d, fs). if d = 0 then 0 else if d < 2 ^ 64 then 2 ^ 64 + 1 - d else 2 ^ 64 + 1)"
    using \<open>d \<noteq> 0\<close> by auto
next
  fix temp d :: nat and fs :: "(nat \<times> nat) list"
  assume "d \<noteq> 0"
  have "u64 (d + 1) < 2 ^ 64" by (simp add: u64_def)
  moreover have "d < 2 ^ 64 \<Longrightarrow> u64 (d + 1) \<noteq> 0 \<Longrightarrow> u64 (d + 1) = d + 1"
    by (metis Suc_eq_plus1 Suc_lessI mod_less mod_self u64_def)
  ultimately show "((temp, u64 (d + 1), fs), temp, d, fs)
      \<in> measure (\<lambda>(temp, d, fs). if d = 0 then 0 else if d < 2 ^ 64 then 2 ^ 64 + 1 - d else 2 ^ 64 + 1)"
    using \<open>d \<noteq> 0\<close> by auto
qed

declare trial_loop.simps [simp del]

text \<open>Lines 80 to 96: the loop from \<open>d = 2\<close>, then the residual factor.\<close>

definition factor_x :: "nat \<Rightarrow> (nat \<times> nat) list option" where
  "factor_x x =
     (case trial_loop x 2 [] of
        None \<Rightarrow> None
      | Some (temp, fs) \<Rightarrow>
          Some (if temp > 1 \<and> length fs < 63 then fs @ [(temp, 1)] else fs))"

text \<open>Lines 98 to 115: exponents doubled, \<open>p\<close> merged in or appended.\<close>

fun combine_loop :: "nat \<Rightarrow> (nat \<times> nat) list \<Rightarrow> (nat \<times> nat) list \<Rightarrow> bool \<Rightarrow> (nat \<times> nat) list \<times> bool" where
  "combine_loop p [] all p_found = (all, p_found)"
| "combine_loop p ((q, e) # fs) all p_found =
     (if q = p then combine_loop p fs (all @ [(q, 2 * e + 2)]) True
      else combine_loop p fs (all @ [(q, 2 * e)]) p_found)"

definition all_factors :: "nat \<Rightarrow> (nat \<times> nat) list \<Rightarrow> (nat \<times> nat) list" where
  "all_factors p fs =
     (case combine_loop p fs [] False of
        (all, p_found) \<Rightarrow> if \<not> p_found then all @ [(p, 2)] else all)"

text \<open>
  Lines 117 to 129: the loop nest of depth three. The array \<open>divs\<close> is the list of its first
  \<open>count\<close> entries, so \<open>count\<close> is the length of the list and \<open>divs[count++] = v\<close> appends.
\<close>

function expand_j :: "nat list \<Rightarrow> nat \<Rightarrow> nat \<Rightarrow> nat \<Rightarrow> nat list" where
  "expand_j divs pe prev_count j =
     (if j < prev_count \<and> length divs < MAX_DIVS
      then expand_j (divs @ [u64 (divs ! j * pe)]) pe prev_count (j + 1)
      else divs)"
  by pat_completeness auto
termination
  by (relation "measure (\<lambda>(divs, pe, prev_count, j). prev_count - j)") auto

declare expand_j.simps [simp del]

function expand_e :: "nat list \<Rightarrow> nat \<Rightarrow> nat \<Rightarrow> nat \<Rightarrow> nat \<Rightarrow> nat \<Rightarrow> nat list" where
  "expand_e divs prime ex prev_count pe e =
     (if e < ex \<and> length divs < MAX_DIVS
      then expand_e (expand_j divs (u64 (pe * prime)) prev_count 0) prime ex prev_count
             (u64 (pe * prime)) (e + 1)
      else divs)"
  by pat_completeness auto
termination
  by (relation "measure (\<lambda>(divs, prime, ex, prev_count, pe, e). ex - e)") auto

declare expand_e.simps [simp del]

fun expand_i :: "nat list \<Rightarrow> (nat \<times> nat) list \<Rightarrow> nat list" where
  "expand_i divs [] = divs"
| "expand_i divs ((prime, ex) # fs) =
     (if length divs < MAX_DIVS
      then expand_i (expand_e divs prime ex (length divs) 1 0) fs
      else divs)"

definition get_divisors_p2x2 :: "nat \<Rightarrow> nat \<Rightarrow> nat list option" where
  "get_divisors_p2x2 p x =
     (case factor_x x of
        None \<Rightarrow> None
      | Some fs \<Rightarrow> Some (expand_i [1] (all_factors p fs)))"

section \<open>fast_solver.c: the search for n = 1 (mod 4)\<close>

text \<open>
  The body of the loop over the divisors, for one divisor \<open>d1\<close>. The result is \<open>None\<close>
  when the body divides by zero (\<open>D / d1\<close> with \<open>d1 = 0\<close>), \<open>Some None\<close> when it
  reaches a \<open>continue\<close> or the verifier rejects, and \<open>Some (Some (y, z))\<close> when the
  verifier accepts \<open>(x, y, z)\<close>.
\<close>

definition try_div :: "nat \<Rightarrow> nat \<Rightarrow> nat \<Rightarrow> nat \<Rightarrow> nat \<Rightarrow> nat \<Rightarrow> nat \<Rightarrow> nat \<Rightarrow> (nat \<times> nat) option option" where
  "try_div n x A nx D A64 target_mod d1 =
     (if d1 > nx then Some None
      else if d1 mod A64 \<noteq> target_mod then Some None
      else if d1 = 0 then None
      else
        (let d2 = D div d1 in
         if u128 (d2 + nx) mod A \<noteq> 0 then Some None
         else
           (let y = u128 (d1 + nx) div A;
                z = u128 (d2 + nx) div A
            in if y < x then Some None
               else
                 (let (y, z) = (if z < y then (z, y) else (y, z))
                  in if y < x then Some None
                     else if verify128 n x y z \<noteq> 0 then Some (Some (y, z))
                     else Some None))))"

fun divs_loop :: "nat \<Rightarrow> nat \<Rightarrow> nat \<Rightarrow> nat \<Rightarrow> nat \<Rightarrow> nat \<Rightarrow> nat \<Rightarrow> nat list \<Rightarrow> (nat \<times> nat) option option" where
  "divs_loop n x A nx D A64 target_mod [] = Some None"
| "divs_loop n x A nx D A64 target_mod (d1 # ds) =
     (case try_div n x A nx D A64 target_mod d1 of
        None \<Rightarrow> None
      | Some (Some yz) \<Rightarrow> Some (Some yz)
      | Some None \<Rightarrow> divs_loop n x A nx D A64 target_mod ds)"

text \<open>\<open>A = (u128)4 * x - n\<close> and \<open>A64 = (u64)A\<close>.\<close>

definition A_of :: "nat \<Rightarrow> nat \<Rightarrow> nat" where
  "A_of n x = u128 (u128 (4 * x) + 2 ^ 128 - n)"

definition A64_of :: "nat \<Rightarrow> nat \<Rightarrow> nat" where
  "A64_of n x = u64 (A_of n x)"

text \<open>
  The body of the loop over \<open>x\<close>, lines 170 to 201. \<open>Some None\<close> is "go on with the next
  \<open>x\<close>"; \<open>None\<close> is a division by zero (in the factorisation, in \<open>% A64\<close> or in
  \<open>D / d1\<close>).
\<close>

definition search_body :: "nat \<Rightarrow> nat \<Rightarrow> (nat \<times> nat) option option" where
  "search_body n x =
     (let A = A_of n x in
      if A = 0 then Some None
      else
        (let nx = u128 (n * x);
             D = u128 (nx * nx)
         in case get_divisors_p2x2 n x of
              None \<Rightarrow> None
            | Some divs \<Rightarrow>
                (let A64 = u64 A in
                 if A64 = 0 then None
                 else
                   (let target_mod = u64 (u64 (A64 + 2 ^ 64 - u64 (nx mod A)) mod A64)
                    in divs_loop n x A nx D A64 target_mod divs))))"

text \<open>
  The loop \<open>for (x = x_min; x <= x_max; x++)\<close>. Inside the body \<open>x \<le> x_max\<close>, and
  \<open>x_max\<close> is at most \<open>2 ^ 62 + 50000\<close> where the loop is called, so the increment
  never wraps.
\<close>

function search_x :: "nat \<Rightarrow> nat \<Rightarrow> nat \<Rightarrow> Solution \<Rightarrow> Solution option" where
  "search_x n x x_max sol =
     (if x \<le> x_max then
        (case search_body n x of
           None \<Rightarrow> None
         | Some (Some (y, z)) \<Rightarrow> Some (set_sol sol x y z)
         | Some None \<Rightarrow> search_x n (x + 1) x_max sol)
      else Some sol)"
  by pat_completeness auto
termination
  by (relation "measure (\<lambda>(n, x, x_max, sol). x_max + 1 - x)") auto

declare search_x.simps [simp del]

definition x_min_of :: "nat \<Rightarrow> nat" where
  "x_min_of n = u64 (n + 3) div 4"

definition x_max_of :: "nat \<Rightarrow> nat" where
  "x_max_of n = u64 (x_min_of n + 50000)"

text \<open>
  \<open>solve_erdos_straus\<close>. The argument \<open>malloc_ok\<close> says whether the \<open>malloc\<close> of the
  divisor buffer returns a non-null pointer. The result \<open>None\<close> is undefined behaviour
  (a division by zero); otherwise the returned structure.
\<close>

definition solve_erdos_straus :: "bool \<Rightarrow> nat \<Rightarrow> Solution option" where
  "solve_erdos_straus malloc_ok n =
     (if n \<le> 1 then Some zero_sol
      else if n = 2 then Some (set_sol zero_sol 1 2 2)
      else if n = 3 then Some (set_sol zero_sol 1 4 12)
      else if n = 4 then Some (set_sol zero_sol 2 4 4)
      else if n = 5 then Some (set_sol zero_sol 2 4 20)
      else if n mod 2 = 0 then
        (let m = n div 2 in Some (set_sol zero_sol m (u128 (2 * m)) (u128 (2 * m))))
      else if n mod 4 = 3 then
        (let q = u64 (n + 1) div 4;
             m = u128 (n * q)
         in Some (set_sol zero_sol q (u128 (2 * m)) (u128 (2 * m))))
      else if \<not> malloc_ok then Some zero_sol
      else search_x n (x_min_of n) (x_max_of n) zero_sol)"

section \<open>fast_solver.c: the batch driver\<close>

text \<open>
  The seven output arrays are seven lists, distinct from each other and from the input
  array. A read or write at an index outside a list is undefined behaviour, the value
  \<open>None\<close>. \<open>mallocs i\<close> says whether the allocation inside the call for element \<open>i\<close>
  succeeds.
\<close>

record Batch =
  out_a_lo :: "nat list"
  out_a_hi :: "nat list"
  out_b_lo :: "nat list"
  out_b_hi :: "nat list"
  out_c_lo :: "nat list"
  out_c_hi :: "nat list"
  out_found :: "int list"

definition batch_fits :: "Batch \<Rightarrow> nat \<Rightarrow> bool" where
  "batch_fits out i \<longleftrightarrow>
     i < length (out_a_lo out) \<and> i < length (out_a_hi out) \<and>
     i < length (out_b_lo out) \<and> i < length (out_b_hi out) \<and>
     i < length (out_c_lo out) \<and> i < length (out_c_hi out) \<and>
     i < length (out_found out)"

definition store_sol :: "Batch \<Rightarrow> nat \<Rightarrow> Solution \<Rightarrow> Batch" where
  "store_sol out i s =
     out\<lparr>out_a_lo := (out_a_lo out)[i := a_lo s], out_a_hi := (out_a_hi out)[i := a_hi s],
         out_b_lo := (out_b_lo out)[i := b_lo s], out_b_hi := (out_b_hi out)[i := b_hi s],
         out_c_lo := (out_c_lo out)[i := c_lo s], out_c_hi := (out_c_hi out)[i := c_hi s],
         out_found := (out_found out)[i := found s]\<rparr>"

function batch_loop :: "(nat \<Rightarrow> bool) \<Rightarrow> nat list \<Rightarrow> int \<Rightarrow> nat \<Rightarrow> Batch \<Rightarrow> Batch option" where
  "batch_loop mallocs primes count i out =
     (if int i < count then
        (if \<not> i < length primes then None
         else
           (case solve_erdos_straus (mallocs i) (primes ! i) of
              None \<Rightarrow> None
            | Some s \<Rightarrow>
                if \<not> batch_fits out i then None
                else batch_loop mallocs primes count (i + 1) (store_sol out i s)))
      else Some out)"
  by pat_completeness auto
termination
  by (relation "measure (\<lambda>(mallocs, primes, count, i, out). nat count - i)") auto

declare batch_loop.simps [simp del]

definition solve_batch :: "(nat \<Rightarrow> bool) \<Rightarrow> nat list \<Rightarrow> int \<Rightarrow> Batch \<Rightarrow> Batch option" where
  "solve_batch mallocs primes count out = batch_loop mallocs primes count 0 out"

section \<open>fast_core.c: reverse and add on digit arrays\<close>

definition MAX_DIGITS :: nat where
  "MAX_DIGITS = 4096"

text \<open>
  A digit array \<open>d[0..len-1]\<close> of \<open>unsigned char\<close> is the list of its \<open>len\<close> entries.
  Indices are \<open>int\<close>, as in the source (\<open>j = len - 1\<close> is \<open>-1\<close> for the empty array).
\<close>

function is_palindrome_loop :: "nat list \<Rightarrow> int \<Rightarrow> int \<Rightarrow> int" where
  "is_palindrome_loop d i j =
     (if i < j then
        (if d ! nat i \<noteq> d ! nat j then 0 else is_palindrome_loop d (i + 1) (j - 1))
      else 1)"
  by pat_completeness auto
termination
  by (relation "measure (\<lambda>(d, i, j). nat (j - i))") auto

declare is_palindrome_loop.simps [simp del]

definition is_palindrome :: "nat list \<Rightarrow> int \<Rightarrow> int" where
  "is_palindrome d len = is_palindrome_loop d 0 (len - 1)"

text \<open>
  The loop of \<open>add_reverse\<close>, from \<open>i = len - 1\<close> down to \<open>0\<close>. \<open>res\<close> holds
  \<open>result[i + 2 .. len]\<close>; the store \<open>result[i + 1] = sum % 10\<close> puts one more digit
  in front of it.
\<close>

function add_reverse_loop :: "nat list \<Rightarrow> int \<Rightarrow> int \<Rightarrow> nat \<Rightarrow> nat list \<Rightarrow> nat \<times> nat list" where
  "add_reverse_loop d len i carry res =
     (if i \<ge> 0 then
        (let j = len - 1 - i;
             sum = d ! nat i + d ! nat j + carry
         in add_reverse_loop d len (i - 1) (sum div 10) ((sum mod 10) # res))
      else (carry, res))"
  by pat_completeness auto
termination
  by (relation "measure (\<lambda>(d, len, i, carry, res). nat (i + 1))") auto

declare add_reverse_loop.simps [simp del]

text \<open>
  \<open>add_reverse\<close> returns the digits \<open>result[0 .. new_len - 1]\<close>: with a carry the
  carry digit in front, without one the digits shifted left by \<open>memmove\<close>.
\<close>

definition add_reverse :: "nat list \<Rightarrow> int \<Rightarrow> nat list" where
  "add_reverse d len =
     (case add_reverse_loop d len (len - 1) 0 [] of
        (carry, res) \<Rightarrow> if carry \<noteq> 0 then carry # res else res)"

text \<open>\<open>num_str[i] - '0'\<close> stored to an \<open>unsigned char\<close>, and \<open>next[i] + '0'\<close>.\<close>

definition digit_of_char :: "char \<Rightarrow> nat" where
  "digit_of_char ch = (of_char ch + 256 - 48) mod 256"

definition char_of_digit :: "nat \<Rightarrow> char" where
  "char_of_digit v = char_of (v + 48)"

text \<open>\<open>int len = strlen(num_str)\<close>: the conversion of a \<open>size_t\<close> to a 32-bit \<open>int\<close>.\<close>

definition int_of_size :: "nat \<Rightarrow> int" where
  "int_of_size k = (let m = k mod 2 ^ 32 in if m < 2 ^ 31 then int m else int m - 2 ^ 32)"

text \<open>
  The result of \<open>reverse_and_add_count\<close> is the returned \<open>int\<close> and the string written to
  \<open>result_buf\<close>, if one is written. \<open>has_buf\<close> says that \<open>result_buf\<close> is not null.
  The arrays \<open>d1\<close> and \<open>d2\<close> have \<open>MAX_DIGITS\<close> entries: \<open>add_reverse\<close> stores to
  \<open>result[len]\<close>, which lies outside for \<open>len = MAX_DIGITS\<close>. That store, a negative
  length passed to \<open>memmove\<close>, and the overflow of \<open>iter++\<close> are undefined behaviour,
  the value \<open>None\<close>.
\<close>

function raa_loop :: "nat list \<Rightarrow> int \<Rightarrow> int \<Rightarrow> bool \<Rightarrow> int \<Rightarrow> (int \<times> string option) option" where
  "raa_loop cur iter max_iter has_buf result_buf_size =
     (if iter \<le> max_iter then
        (if \<not> length cur < MAX_DIGITS then None
         else
           (let nxt = add_reverse cur (int (length cur));
                len = int (length nxt)
            in if is_palindrome nxt len \<noteq> 0 then
                 Some (iter,
                   if has_buf \<and> result_buf_size > 0 then
                     (let copy_len = (if len < result_buf_size - 1 then len else result_buf_size - 1)
                      in Some (map char_of_digit (take (nat copy_len) nxt)))
                   else None)
               else if iter = 2 ^ 31 - 1 then None
               else raa_loop nxt (iter + 1) max_iter has_buf result_buf_size))
      else Some (- 1, None))"
  by pat_completeness auto
termination
  by (relation "measure (\<lambda>(cur, iter, max_iter, has_buf, sz). nat (max_iter + 1 - iter))") auto

declare raa_loop.simps [simp del]

definition reverse_and_add_count :: "string \<Rightarrow> int \<Rightarrow> bool \<Rightarrow> int \<Rightarrow> (int \<times> string option) option" where
  "reverse_and_add_count num_str max_iter has_buf result_buf_size =
     (let len = int_of_size (length num_str) in
      if len \<ge> int MAX_DIGITS then Some (- 2, None)
      else if len < 0 then (if 1 \<le> max_iter then None else Some (- 1, None))
      else raa_loop (map digit_of_char (take (nat len) num_str)) 1 max_iter has_buf result_buf_size)"

section \<open>Properties of the batch output\<close>

text \<open>Slot \<open>i\<close> of the seven output arrays holds the fields of \<open>s\<close>.\<close>

definition slot_is :: "Batch \<Rightarrow> nat \<Rightarrow> Solution \<Rightarrow> bool" where
  "slot_is out i s \<longleftrightarrow>
     out_a_lo out ! i = a_lo s \<and> out_a_hi out ! i = a_hi s \<and>
     out_b_lo out ! i = b_lo s \<and> out_b_hi out ! i = b_hi s \<and>
     out_c_lo out ! i = c_lo s \<and> out_c_hi out ! i = c_hi s \<and>
     out_found out ! i = found s"

text \<open>Slot \<open>i\<close> is the same in both states.\<close>

definition slot_same :: "Batch \<Rightarrow> Batch \<Rightarrow> nat \<Rightarrow> bool" where
  "slot_same out out' i \<longleftrightarrow>
     out_a_lo out' ! i = out_a_lo out ! i \<and> out_a_hi out' ! i = out_a_hi out ! i \<and>
     out_b_lo out' ! i = out_b_lo out ! i \<and> out_b_hi out' ! i = out_b_hi out ! i \<and>
     out_c_lo out' ! i = out_c_lo out ! i \<and> out_c_hi out' ! i = out_c_hi out ! i \<and>
     out_found out' ! i = out_found out ! i"

text \<open>Each output array has at least \<open>k\<close> entries.\<close>

definition batch_cap :: "Batch \<Rightarrow> nat \<Rightarrow> bool" where
  "batch_cap out k \<longleftrightarrow>
     k \<le> length (out_a_lo out) \<and> k \<le> length (out_a_hi out) \<and>
     k \<le> length (out_b_lo out) \<and> k \<le> length (out_b_hi out) \<and>
     k \<le> length (out_c_lo out) \<and> k \<le> length (out_c_hi out) \<and>
     k \<le> length (out_found out)"

section \<open>Notions used to state the properties of the factorisation\<close>

text \<open>Primality, by bounded search so that it can be evaluated.\<close>

definition prime_nat :: "nat \<Rightarrow> bool" where
  "prime_nat p \<longleftrightarrow> 1 < p \<and> (\<forall>d \<in> {2..<p}. \<not> d dvd p)"

text \<open>The number that a list of (prime, exponent) pairs denotes.\<close>

definition factors_value :: "(nat \<times> nat) list \<Rightarrow> nat" where
  "factors_value fs = prod_list (map (\<lambda>(p, e). p ^ e) fs)"

text \<open>
  A factor list as the trial division builds it: primes with positive exponents, the
  primes strictly increasing.
\<close>

definition factor_list_ok :: "(nat \<times> nat) list \<Rightarrow> bool" where
  "factor_list_ok fs \<longleftrightarrow>
     (\<forall>(p, e) \<in> set fs. prime_nat p \<and> 0 < e) \<and> sorted_wrt (<) (map fst fs)"

text \<open>
  What holds at the head of the trial-division loop for the input \<open>x\<close>: the factors
  found so far times the rest give \<open>x\<close>, the rest has no divisor in \<open>[2, d)\<close>, and
  the primes found are below \<open>d\<close>.
\<close>

definition trial_inv :: "nat \<Rightarrow> nat \<Rightarrow> nat \<Rightarrow> (nat \<times> nat) list \<Rightarrow> bool" where
  "trial_inv x temp d fs \<longleftrightarrow>
     2 \<le> d \<and> d \<le> 2 ^ 64 - 2 \<and> 0 < temp \<and> x < 2 ^ 64 \<and>
     factors_value fs * temp = x \<and>
     (\<forall>k. 2 \<le> k \<and> k < d \<longrightarrow> \<not> k dvd temp) \<and>
     factor_list_ok fs \<and> (\<forall>(p, e) \<in> set fs. p < d)"

text \<open>
  What holds when the loop is left with the rest \<open>t\<close>: the rest is 1 or a prime above
  all primes found, and the capacity check \<open>nfactors < 63\<close> still holds.
\<close>

definition trial_post :: "nat \<Rightarrow> nat \<Rightarrow> (nat \<times> nat) list \<Rightarrow> bool" where
  "trial_post x t fs \<longleftrightarrow>
     factors_value fs * t = x \<and> factor_list_ok fs \<and>
     (t = 1 \<or> (prime_nat t \<and> (\<forall>(p, e) \<in> set fs. p < t))) \<and> length fs < 63"

section \<open>The enumeration without the cap\<close>

text \<open>
  What the inner loop nest appends for one prime when \<open>MAX_DIVS\<close> is not reached: for
  each of the next \<open>n\<close> powers of the prime, the entries of \<open>base\<close> (the first
  \<open>prev_count\<close> divisors) times that power, all in 64-bit arithmetic.
\<close>

fun scaled_blocks :: "nat list \<Rightarrow> nat \<Rightarrow> nat \<Rightarrow> nat \<Rightarrow> nat list" where
  "scaled_blocks base prime pe 0 = []"
| "scaled_blocks base prime pe (Suc n) =
     map (\<lambda>d. u64 (d * u64 (pe * prime))) base @ scaled_blocks base prime (u64 (pe * prime)) n"

text \<open>What the outer loop builds when \<open>MAX_DIVS\<close> is not reached.\<close>

fun all_products :: "nat list \<Rightarrow> (nat \<times> nat) list \<Rightarrow> nat list" where
  "all_products divs [] = divs"
| "all_products divs ((prime, ex) # fs) =
     all_products (divs @ scaled_blocks divs prime 1 ex) fs"

section \<open>Notions used to state the properties of reverse and add\<close>

text \<open>One reverse-and-add step on a digit list, and the palindrome test on a digit list.\<close>

definition rev_add_step :: "nat list \<Rightarrow> nat list" where
  "rev_add_step d = add_reverse d (int (length d))"

definition is_pal :: "nat list \<Rightarrow> bool" where
  "is_pal d \<longleftrightarrow> is_palindrome d (int (length d)) \<noteq> 0"

section \<open>Verification: machine arithmetic\<close>

lemma u64_id: "v < 2 ^ 64 \<Longrightarrow> u64 v = v"
  by (simp add: u64_def)

lemma u128_id: "v < 2 ^ 128 \<Longrightarrow> u128 v = v"
  by (simp add: u128_def)

lemma add3: "(x mod m + y mod m + z mod m) mod m = (x + y + z) mod (m::nat)"
proof -
  have "(x mod m + y mod m + z mod m) mod m = ((x mod m + y mod m) mod m + z mod m) mod m"
    by (rule mod_add_left_eq [symmetric])
  also have "\<dots> = ((x + y) mod m + z mod m) mod m"
    by (simp only: mod_add_eq)
  also have "\<dots> = (x + y + z) mod m"
    by (rule mod_add_eq)
  finally show ?thesis .
qed

lemma verify_mod_iff:
  assumes m: "0 < md" "md \<le> 2 ^ 32"
  shows "verify_mod md n a b c \<longleftrightarrow>
           (4 * a * b * c) mod md = (n * (a * b + b * c + a * c)) mod md"
proof -
  have lt: "v mod md < 2 ^ 32" for v
    using m by (meson less_le_trans mod_less_divisor)
  have e5: "u64 (v mod md) = v mod md" for v
    using lt [of v] by (intro u64_id) (simp add: less_trans [where y = "2 ^ 32"])
  have e2: "u128 (4 * (v mod md)) = 4 * (v mod md)" for v
    using lt [of v] by (intro u128_id) simp
  have e3: "u128 ((v mod md) * (w mod md)) = (v mod md) * (w mod md)" for v w
  proof (rule u128_id)
    have "(v mod md) * (w mod md) < 2 ^ 32 * 2 ^ 32"
      using lt [of v] lt [of w] by (intro mult_strict_mono) auto
    then show "(v mod md) * (w mod md) < 2 ^ 128" by simp
  qed
  have e4: "u128 (u mod md + v mod md + w mod md) = u mod md + v mod md + w mod md" for u v w
    using lt [of u] lt [of v] lt [of w] by (intro u128_id) simp
  have "verify_mod md n a b c \<longleftrightarrow>
      (4 * (a mod md) mod md * (b mod md) mod md * (c mod md)) mod md
      = ((n mod md) * (((b mod md) * (c mod md) mod md + (a mod md) * (c mod md) mod md
           + (a mod md) * (b mod md) mod md) mod md)) mod md"
    unfolding verify_mod_def Let_def e5 e2 e3 e4 ..
  also have "(4 * (a mod md) mod md * (b mod md) mod md * (c mod md)) mod md = (4 * a * b * c) mod md"
    by (simp add: mod_simps)
  also have "((n mod md) * (((b mod md) * (c mod md) mod md + (a mod md) * (c mod md) mod md
           + (a mod md) * (b mod md) mod md) mod md)) mod md = (n * (a * b + b * c + a * c)) mod md"
  proof -
    have "((b mod md) * (c mod md) mod md + (a mod md) * (c mod md) mod md
           + (a mod md) * (b mod md) mod md) mod md = (b * c + a * c + a * b) mod md"
      unfolding mod_mult_eq by (rule add3)
    then have "((n mod md) * (((b mod md) * (c mod md) mod md + (a mod md) * (c mod md) mod md
           + (a mod md) * (b mod md) mod md) mod md)) mod md = (n * (b * c + a * c + a * b)) mod md"
      by (simp add: mod_mult_eq)
    also have "b * c + a * c + a * b = a * b + b * c + a * c" by simp
    finally show ?thesis .
  qed
  finally show ?thesis .
qed

lemma if4:
  "(if P then if Q then if R then if S then 1 else 0 else 0 else 0 else 0)
     = (if P \<and> Q \<and> R \<and> S then 1 else (0::int))"
  by simp

lemma verify128_eq:
  "verify128 n a b c =
     (if (4 * a * b * c) mod 1000000007 = (n * (a * b + b * c + a * c)) mod 1000000007
       \<and> (4 * a * b * c) mod 1000000009 = (n * (a * b + b * c + a * c)) mod 1000000009
       \<and> (4 * a * b * c) mod 998244353 = (n * (a * b + b * c + a * c)) mod 998244353
       \<and> (4 * a * b * c) mod 999999937 = (n * (a * b + b * c + a * c)) mod 999999937
      then 1 else 0)"
proof -
  have 1: "verify_mod 1000000007 n a b c \<longleftrightarrow>
      (4 * a * b * c) mod 1000000007 = (n * (a * b + b * c + a * c)) mod 1000000007"
    by (rule verify_mod_iff) simp_all
  have 2: "verify_mod 1000000009 n a b c \<longleftrightarrow>
      (4 * a * b * c) mod 1000000009 = (n * (a * b + b * c + a * c)) mod 1000000009"
    by (rule verify_mod_iff) simp_all
  have 3: "verify_mod 998244353 n a b c \<longleftrightarrow>
      (4 * a * b * c) mod 998244353 = (n * (a * b + b * c + a * c)) mod 998244353"
    by (rule verify_mod_iff) simp_all
  have 4: "verify_mod 999999937 n a b c \<longleftrightarrow>
      (4 * a * b * c) mod 999999937 = (n * (a * b + b * c + a * c)) mod 999999937"
    by (rule verify_mod_iff) simp_all
  show ?thesis
    unfolding verify128_def mods_def verify_loop.simps 1 2 3 4
    by (rule if4)
qed

text \<open>
  C6. \<open>verify128\<close> returns 1 exactly when \<open>4abc\<close> and \<open>n(ab + bc + ac)\<close> agree modulo
  each of the four primes 1000000007, 1000000009, 998244353 and 999999937, and 0 as soon
  as they differ modulo one of them. The reductions and casts inside the function never
  change a value.
\<close>

theorem verify128_iff:
  "(verify128 n a b c = 1 \<longleftrightarrow>
      (4 * a * b * c) mod 1000000007 = (n * (a * b + b * c + a * c)) mod 1000000007
      \<and> (4 * a * b * c) mod 1000000009 = (n * (a * b + b * c + a * c)) mod 1000000009
      \<and> (4 * a * b * c) mod 998244353 = (n * (a * b + b * c + a * c)) mod 998244353
      \<and> (4 * a * b * c) mod 999999937 = (n * (a * b + b * c + a * c)) mod 999999937)
   \<and> (verify128 n a b c \<noteq> 1 \<longrightarrow> verify128 n a b c = 0)
   \<and> mods = [1000000007, 1000000009, 998244353, 999999937]"
  unfolding verify128_eq by (simp add: mods_def)

theorem verify128_iff_witness:
  "verify128 13 4 18 468 = 1 \<and> verify128 13 4 18 469 = 0"
  using verify128_iff [of 13 4 18 468] verify128_iff [of 13 4 18 469] by simp

section \<open>Verification: the search window\<close>

lemma two64: "(2::nat) ^ 64 = 18446744073709551616"
  by simp

lemma two128: "(2::nat) ^ 128 = 340282366920938463463374607431768211456"
  by simp

lemma window_regular:
  assumes "n mod 4 = 1" "n + 3 < 2 ^ 64"
  shows "4 * x_min_of n = n + 3" "x_max_of n = x_min_of n + 50000"
proof -
  have "u64 (n + 3) = n + 3" using assms by (simp add: u64_id)
  then show 1: "4 * x_min_of n = n + 3"
    using assms(1) unfolding x_min_of_def by presburger
  have "x_min_of n + 50000 < 2 ^ 64" using 1 assms(2) by simp
  then show "x_max_of n = x_min_of n + 50000"
    by (simp add: x_max_of_def u64_id)
qed

lemma window_wrapped:
  assumes "n mod 4 = 1" "n < 2 ^ 64" "\<not> n + 3 < 2 ^ 64"
  shows "n = 2 ^ 64 - 3" "x_min_of n = 0" "x_max_of n = 50000"
proof -
  show n: "n = 2 ^ 64 - 3" using assms unfolding two64 by presburger
  show m: "x_min_of n = 0" unfolding n x_min_of_def u64_def by simp
  show "x_max_of n = 50000" unfolding x_max_of_def m u64_def by simp
qed

lemma A_regular:
  assumes "n mod 4 = 1" "n + 3 < 2 ^ 64" "x_min_of n \<le> x" "x \<le> x_max_of n"
  shows "A_of n x = 4 * x - n" "n + 3 \<le> 4 * x" "4 * x - n \<le> 200003"
proof -
  note w = window_regular [OF assms(1,2)]
  show le: "n + 3 \<le> 4 * x" using w assms(3) by linarith
  show up: "4 * x - n \<le> 200003" using w assms(4) by linarith
  have "4 * x < 2 ^ 128" using w assms(2,4) unfolding two64 two128 by linarith
  then have "u128 (4 * x) = 4 * x" by (rule u128_id)
  moreover have "4 * x + 2 ^ 128 - n = 2 ^ 128 + (4 * x - n)" using le by linarith
  moreover have "(2 ^ 128 + (4 * x - n)) mod 2 ^ 128 = 4 * x - n"
    using up by simp
  ultimately show "A_of n x = 4 * x - n" by (simp add: A_of_def u128_def)
qed

lemma A_in_loop:
  assumes "n mod 4 = 1" "9 \<le> n" "n < 2 ^ 64" "x_min_of n \<le> x" "x \<le> x_max_of n"
  shows "3 \<le> A_of n x \<and> A_of n x \<noteq> 0 \<and> A64_of n x \<noteq> 0
         \<and> (n + 3 < 2 ^ 64 \<longrightarrow> x_min_of n = (n + 3) div 4 \<and> x_max_of n = (n + 3) div 4 + 50000
               \<and> int (A_of n x) = 4 * int x - int n)"
proof (cases "n + 3 < 2 ^ 64")
  case True
  note a = A_regular [OF assms(1) True assms(4,5)]
  note w = window_regular [OF assms(1) True]
  have "A64_of n x = 4 * x - n" using a by (simp add: A64_of_def u64_id)
  moreover have "x_min_of n = (n + 3) div 4" using w by linarith
  ultimately show ?thesis using a w by auto
next
  case False
  note w = window_wrapped [OF assms(1,3) False]
  have x: "x \<le> 50000" using assms(5) w by simp
  have "u128 (4 * x) = 4 * x" using x by (intro u128_id) simp
  then have "A_of n x = (4 * x + 2 ^ 128 - (2 ^ 64 - 3)) mod 2 ^ 128"
    by (simp add: A_of_def u128_def w)
  also have "4 * x + 2 ^ 128 - (2 ^ 64 - 3) = 4 * x + 340282366920938463444927863358058659843"
    by simp
  also have "\<dots> mod 2 ^ 128 = 4 * x + 340282366920938463444927863358058659843"
    using x by simp
  finally have A: "A_of n x = 4 * x + 340282366920938463444927863358058659843" .
  have "(4 * x + 3 + 2 ^ 64 * K) mod 2 ^ 64 = (4 * x + 3) mod 2 ^ 64" for K :: nat
    by (rule mod_mult_self2)
  from this [of 18446744073709551615]
  have "(4 * x + 340282366920938463444927863358058659843) mod 2 ^ 64 = (4 * x + 3) mod 2 ^ 64"
    by (simp add: add.commute)
  then have "A64_of n x = 4 * x + 3"
    unfolding A64_of_def A u64_def using x by simp
  then show ?thesis using A False by simp
qed

lemma A_in_window:
  assumes "n mod 4 = 1" "(n + 3) div 4 \<le> x"
  shows "3 \<le> 4 * int x - int n"
proof -
  have "4 * ((n + 3) div 4) = n + 3" using assms(1) by presburger
  then have "n + 3 \<le> 4 * x" using assms(2) by linarith
  then show ?thesis by linarith
qed

text \<open>
  C7. For \<open>n = 1 (mod 4)\<close>, \<open>n \<ge> 9\<close>, and every \<open>x\<close> the loop visits, the 128-bit value
  \<open>A\<close> is at least 3, so the branch \<open>A == 0\<close> is never taken, and \<open>A64 = (u64)A\<close> is
  not zero, so \<open>% A\<close> and \<open>% A64\<close> never divide by zero. When \<open>n + 3\<close> fits in 64
  bits the window is \<open>[(n+3)/4, (n+3)/4 + 50000]\<close> and \<open>A\<close> is the integer \<open>4x - n\<close>.
  As integers, \<open>4x - n \<ge> 3\<close> for every \<open>x \<ge> (n+3)/4\<close>.
\<close>

theorem A_positive:
  assumes "n mod 4 = 1" "9 \<le> n" "n < 2 ^ 64" "x_min_of n \<le> x" "x \<le> x_max_of n"
  shows "3 \<le> A_of n x \<and> A_of n x \<noteq> 0 \<and> A64_of n x \<noteq> 0
         \<and> (n + 3 < 2 ^ 64 \<longrightarrow> x_min_of n = (n + 3) div 4 \<and> x_max_of n = (n + 3) div 4 + 50000
               \<and> int (A_of n x) = 4 * int x - int n)
         \<and> (\<forall>x'. (n + 3) div 4 \<le> x' \<longrightarrow> 3 \<le> 4 * int x' - int n)"
  using A_in_loop [OF assms] A_in_window [OF assms(1)] by blast

theorem A_positive_witness:
  "3 \<le> A_of 13 4 \<and> A64_of 13 4 \<noteq> 0 \<and> int (A_of 13 4) = 4 * 4 - 13"
  using A_positive [of 13 4] by (simp add: x_min_of_def x_max_of_def u64_def)

section \<open>Verification: the closed-form cases\<close>

lemma hi_lo: "v < 2 ^ 128 \<Longrightarrow> u64 (v div 2 ^ 64) * 2 ^ 64 + u64 v = v"
proof -
  assume "v < 2 ^ 128"
  then have "v div 2 ^ 64 < 2 ^ 64"
    unfolding two64 two128 by (simp add: less_mult_imp_div_less)
  then have "u64 (v div 2 ^ 64) = v div 2 ^ 64" by (rule u64_id)
  then show ?thesis by (simp add: u64_def)
qed

lemma sort3_sorted: "a \<le> b \<Longrightarrow> b \<le> c \<Longrightarrow> sort3 a b c = (a, b, c)"
  by (simp add: sort3_def)

lemma set_sol_sorted:
  assumes "a \<le> b" "b \<le> c" "c < 2 ^ 128"
  shows "sol_a (set_sol s a b c) = a" "sol_b (set_sol s a b c) = b"
    "sol_c (set_sol s a b c) = c" "found (set_sol s a b c) = 1"
proof -
  have "a < 2 ^ 128" "b < 2 ^ 128" using assms by linarith+
  then have h: "u64 (a div 2 ^ 64) * 2 ^ 64 + u64 a = a" "u64 (b div 2 ^ 64) * 2 ^ 64 + u64 b = b"
    "u64 (c div 2 ^ 64) * 2 ^ 64 + u64 c = c"
    using assms(3) by (simp_all only: hi_lo)
  have s: "sort3 a b c = (a, b, c)" using assms by (simp add: sort3_sorted)
  show "sol_a (set_sol s a b c) = a" "sol_b (set_sol s a b c) = b"
    "sol_c (set_sol s a b c) = c" "found (set_sol s a b c) = 1"
    using h by (simp_all add: set_sol_def s sol_a_def sol_b_def sol_c_def)
qed

lemma solve_even:
  assumes "2 \<le> n" "n mod 2 = 0" "n < 2 ^ 64"
  shows "solve_erdos_straus m n = Some (set_sol zero_sol (n div 2) n n)"
proof -
  have e: "2 * (n div 2) = n" using assms(2) by presburger
  have "u128 n = n" using assms(3) by (intro u128_id) (simp add: two64)
  then show ?thesis
    using assms e by (auto simp: solve_erdos_straus_def Let_def)
qed

lemma solve_3mod4:
  assumes "n mod 4 = 3" "7 \<le> n" "n + 1 < 2 ^ 64"
  shows "solve_erdos_straus m n =
           Some (set_sol zero_sol ((n + 1) div 4) (2 * n * ((n + 1) div 4)) (2 * n * ((n + 1) div 4)))"
    and "2 * n * ((n + 1) div 4) < 2 ^ 128"
proof -
  define q where "q = (n + 1) div 4"
  have q4: "4 * q = n + 1" unfolding q_def using assms(1) by presburger
  have qb: "q < 2 ^ 62" using q4 assms(3) by simp
  have "n * q < 2 ^ 64 * 2 ^ 62"
    using assms(3) qb by (intro mult_strict_mono) auto
  then have nq: "n * q < 2 ^ 126" by simp
  then have "u128 (n * q) = n * q" by (intro u128_id) simp
  moreover have "u128 (2 * (n * q)) = 2 * (n * q)" using nq by (intro u128_id) simp
  moreover have "u64 (n + 1) = n + 1" using assms(3) by (rule u64_id)
  moreover have "n mod 2 \<noteq> 0" using assms(1) by presburger
  ultimately show "solve_erdos_straus m n = Some (set_sol zero_sol ((n + 1) div 4) (2 * n * ((n + 1) div 4)) (2 * n * ((n + 1) div 4)))"
    using assms unfolding q_def [symmetric]
    by (simp add: solve_erdos_straus_def Let_def q_def mult.assoc)
  show "2 * n * ((n + 1) div 4) < 2 ^ 128"
    using nq unfolding q_def by simp
qed

lemma identity_3mod4:
  fixes n q :: nat
  assumes "4 * q = n + 1"
  shows "4 * q * (2 * n * q) * (2 * n * q)
           = n * (q * (2 * n * q) + (2 * n * q) * (2 * n * q) + q * (2 * n * q))"
proof -
  have "n * (q * (2 * n * q) + (2 * n * q) * (2 * n * q) + q * (2 * n * q))
        = 4 * n * n * q * q * (n + 1)"
    by (simp add: algebra_simps)
  also have "\<dots> = 4 * n * n * q * q * (4 * q)" using assms by simp
  finally show ?thesis by (simp add: algebra_simps)
qed

text \<open>
  The closed-form cases on the inputs where no 64-bit sum wraps: an even \<open>n \<ge> 2\<close> gives
  \<open>(n/2, n, n)\<close>, and \<open>n = 3 (mod 4)\<close> with \<open>7 \<le> n < 2^64 - 1\<close> gives
  \<open>(q, 2nq, 2nq)\<close> for \<open>q = (n+1)/4\<close>; both triples are sorted, positive and satisfy
  the identity exactly.
\<close>

lemma closed_form_even:
  assumes "2 \<le> n" "n mod 2 = 0" "n < 2 ^ 64"
  shows "\<exists>s. solve_erdos_straus m n = Some s \<and> found s = 1
           \<and> sol_a s = n div 2 \<and> sol_b s = n \<and> sol_c s = n
           \<and> 0 < sol_a s \<and> sol_a s \<le> sol_b s \<and> sol_b s \<le> sol_c s
           \<and> 4 * sol_a s * sol_b s * sol_c s
               = n * (sol_a s * sol_b s + sol_b s * sol_c s + sol_a s * sol_c s)"
proof -
  have n: "n < 2 ^ 128" using assms(3) unfolding two64 two128 by linarith
  have le: "n div 2 \<le> n" by simp
  have e: "2 * (n div 2) = n" using assms(2) by presburger
  note v = set_sol_sorted [OF le order_refl n, of zero_sol]
  have pos: "0 < n div 2" using assms(1) by simp
  define h where "h = n div 2"
  have nh: "n = 2 * h" unfolding h_def using e by simp
  have "4 * h * (2 * h) * (2 * h) = (2 * h) * (h * (2 * h) + (2 * h) * (2 * h) + h * (2 * h))"
    by (simp add: algebra_simps)
  then have "4 * (n div 2) * n * n = n * ((n div 2) * n + n * n + (n div 2) * n)"
    unfolding h_def [symmetric] using nh by simp
  then show ?thesis
    unfolding solve_even [OF assms] using v pos by simp
qed

lemma closed_form_3mod4:
  assumes "n mod 4 = 3" "7 \<le> n" "n + 1 < 2 ^ 64"
  shows "\<exists>s. solve_erdos_straus m n = Some s \<and> found s = 1
           \<and> sol_a s = (n + 1) div 4 \<and> sol_b s = 2 * n * ((n + 1) div 4)
           \<and> sol_c s = 2 * n * ((n + 1) div 4)
           \<and> 0 < sol_a s \<and> sol_a s \<le> sol_b s \<and> sol_b s \<le> sol_c s
           \<and> 4 * sol_a s * sol_b s * sol_c s
               = n * (sol_a s * sol_b s + sol_b s * sol_c s + sol_a s * sol_c s)"
proof -
  define q where "q = (n + 1) div 4"
  have q4: "4 * q = n + 1" unfolding q_def using assms(1) by presburger
  have pos: "0 < q" using q4 by simp
  have le: "q \<le> 2 * n * q" using assms(2) by simp
  note b1 = solve_3mod4(1) [OF assms, where m = m, folded q_def]
  note b2 = solve_3mod4(2) [OF assms, folded q_def]
  note v = set_sol_sorted [OF le order_refl b2, of zero_sol]
  show ?thesis
    unfolding q_def [symmetric] b1 using v pos assms(2) identity_3mod4 [OF q4] by simp
qed

text \<open>
  C1. At \<open>n = 2^64 - 1\<close>, which is \<open>3 (mod 4)\<close>, the 64-bit sum \<open>n + 1\<close> wraps to 0, so
  \<open>q = 0\<close> and \<open>set_sol\<close> stores the triple \<open>(0, 0, 0)\<close> with \<open>found = 1\<close>: the
  returned \<open>a\<close> is not positive.
\<close>

theorem found_with_zero_triple:
  "\<forall>m. \<exists>s. solve_erdos_straus m 18446744073709551615 = Some s
       \<and> found s = 1 \<and> sol_a s = 0 \<and> sol_b s = 0 \<and> sol_c s = 0"
  by (simp add: solve_erdos_straus_def u64_def u128_def set_sol_def sort3_def zero_sol_def
      sol_a_def sol_b_def sol_c_def)

text \<open>
  C4. At the same input the triple is not \<open>(q, 2nq, 2nq)\<close> for \<open>q = (n + 1) / 4 = 2^62\<close>:
  the first component returned is 0.
\<close>

theorem triple_3mod4_wrapped:
  "(18446744073709551615::nat) mod 4 = 3 \<and> (18446744073709551615 + 1) div 4 = (2::nat) ^ 62
   \<and> (\<forall>m. \<exists>s. solve_erdos_straus m 18446744073709551615 = Some s
          \<and> found s = 1 \<and> sol_a s \<noteq> (18446744073709551615 + 1) div 4)"
  by (simp add: solve_erdos_straus_def u64_def u128_def set_sol_def sort3_def zero_sol_def
      sol_a_def)

section \<open>Verification: the search at n = 13\<close>

lemma factor_x_4: "factor_x 4 = Some [(2, 2)]"
  by (simp add: factor_x_def trial_loop.simps strip_factor.simps u64_def)

lemma divisors_13_4:
  "get_divisors_p2x2 13 4 = Some [1, 2, 4, 8, 16, 13, 26, 52, 104, 208, 169, 338, 676, 1352, 2704]"
  by (simp add: get_divisors_p2x2_def factor_x_4 all_factors_def expand_e.simps expand_j.simps
      u64_def MAX_DIVS_def)

lemma verify_13: "verify128 13 4 18 468 = 1"
  unfolding verify128_eq by simp

lemma try_div_13_1: "try_div 13 4 3 52 2704 3 2 (Suc 0) = Some None"
  by (simp add: try_div_def)

lemma try_div_13_2: "try_div 13 4 3 52 2704 3 2 2 = Some (Some (18, 468))"
  by (simp add: try_div_def u128_def verify_13)

lemma search_body_13: "search_body 13 4 = Some (Some (18, 468))"
  by (simp add: search_body_def A_of_def u128_def u64_def divisors_13_4 try_div_13_1 try_div_13_2)

lemma solve_13_value:
  "solve_erdos_straus True 13 =
     Some \<lparr>a_lo = 4, a_hi = 0, b_lo = 18, b_hi = 0, c_lo = 468, c_hi = 0, found = 1\<rparr>"
  by (simp add: solve_erdos_straus_def x_min_of_def x_max_of_def search_x.simps [of 13 4]
      search_body_13 set_sol_def sort3_def zero_sol_def u64_def)

text \<open>
  C8. With the divisor buffer allocated, \<open>solve_erdos_straus(13)\<close> returns \<open>found = 1\<close>
  and the triple \<open>(4, 18, 468)\<close>, which is sorted, positive and satisfies
  \<open>4abc = 13(ab + bc + ac)\<close> exactly.
\<close>

theorem solve_13:
  "\<exists>s. solve_erdos_straus True 13 = Some s \<and> found s = 1
       \<and> 0 < sol_a s \<and> sol_a s \<le> sol_b s \<and> sol_b s \<le> sol_c s
       \<and> 4 * sol_a s * sol_b s * sol_c s
           = 13 * (sol_a s * sol_b s + sol_b s * sol_c s + sol_a s * sol_c s)"
  unfolding solve_13_value by (simp add: sol_a_def sol_b_def sol_c_def)

section \<open>Verification: the batch driver\<close>

lemma batch_cap_fits: "batch_cap out k \<Longrightarrow> i < k \<Longrightarrow> batch_fits out i"
  by (simp add: batch_cap_def batch_fits_def)

lemma batch_cap_store: "batch_cap (store_sol out i s) k = batch_cap out k"
  by (simp add: batch_cap_def store_sol_def)

lemma slot_is_store: "batch_fits out i \<Longrightarrow> slot_is (store_sol out i s) i s"
  by (simp add: slot_is_def store_sol_def batch_fits_def)

lemma slot_same_store: "j \<noteq> i \<Longrightarrow> slot_same out (store_sol out i s) j"
  by (simp add: slot_same_def store_sol_def)

lemma slot_same_trans: "slot_same a b j \<Longrightarrow> slot_same b c j \<Longrightarrow> slot_same a c j"
  by (simp add: slot_same_def)

lemma slot_is_same: "slot_is b j s \<Longrightarrow> slot_same b c j \<Longrightarrow> slot_is c j s"
  by (simp add: slot_same_def slot_is_def)

lemma slot_same_refl: "slot_same a a j"
  by (simp add: slot_same_def)

lemma batch_loop_slots:
  assumes "i \<le> k" "k \<le> length primes" "batch_cap out k"
  shows "case batch_loop mallocs primes (int k) i out of
           None \<Rightarrow> \<exists>j. i \<le> j \<and> j < k \<and> solve_erdos_straus (mallocs j) (primes ! j) = None
         | Some out' \<Rightarrow>
             (\<forall>j. i \<le> j \<and> j < k \<longrightarrow>
                (\<exists>s. solve_erdos_straus (mallocs j) (primes ! j) = Some s \<and> slot_is out' j s))
             \<and> (\<forall>j. j < i \<or> k \<le> j \<longrightarrow> slot_same out out' j)"
  using assms
proof (induction "k - i" arbitrary: i out)
  case 0
  then have "i = k" by simp
  then show ?case
    by (auto simp add: batch_loop.simps [of _ _ _ k] slot_same_refl)
next
  case (Suc d)
  then have ik: "i < k" and il: "i < length primes" by linarith+
  show ?case
  proof (cases "solve_erdos_straus (mallocs i) (primes ! i)")
    case None
    then have "batch_loop mallocs primes (int k) i out = None"
      using ik il by (simp add: batch_loop.simps [of _ _ _ i])
    then show ?thesis using None ik by auto
  next
    case (Some s)
    let ?out2 = "store_sol out i s"
    have fits: "batch_fits out i" using Suc.prems(3) ik by (rule batch_cap_fits)
    have step: "batch_loop mallocs primes (int k) i out = batch_loop mallocs primes (int k) (i + 1) ?out2"
      using ik il Some fits by (simp add: batch_loop.simps [of _ _ _ i])
    have d: "d = k - (i + 1)" using Suc.hyps(2) by simp
    have cap2: "batch_cap ?out2 k" using Suc.prems(3) by (simp add: batch_cap_store)
    have le2: "i + 1 \<le> k" using ik by simp
    note IH = Suc.hyps(1) [OF d le2 Suc.prems(2) cap2]
    show ?thesis
    proof (cases "batch_loop mallocs primes (int k) (i + 1) ?out2")
      case None
      with IH obtain j where "i + 1 \<le> j" "j < k" "solve_erdos_straus (mallocs j) (primes ! j) = None"
        by auto
      then have "i \<le> j \<and> j < k \<and> solve_erdos_straus (mallocs j) (primes ! j) = None"
        by simp
      then show ?thesis unfolding step None by (simp only: option.case) (rule exI)
    next
      case (Some out')
      with IH have a: "\<And>j. i + 1 \<le> j \<Longrightarrow> j < k \<Longrightarrow>
            \<exists>s. solve_erdos_straus (mallocs j) (primes ! j) = Some s \<and> slot_is out' j s"
        and b: "\<And>j. j < i + 1 \<or> k \<le> j \<Longrightarrow> slot_same ?out2 out' j"
        by auto
      have "slot_is out' i s"
        using slot_is_store [OF fits] b [of i] by (auto intro: slot_is_same)
      then have 1: "\<exists>s'. solve_erdos_straus (mallocs j) (primes ! j) = Some s' \<and> slot_is out' j s'"
        if "i \<le> j" "j < k" for j
        using that a [of j] \<open>solve_erdos_straus (mallocs i) (primes ! i) = Some s\<close>
        by (cases "j = i") auto
      have 2: "slot_same out out' j" if "j < i \<or> k \<le> j" for j
      proof -
        have "j \<noteq> i" using that ik by auto
        then have "slot_same out ?out2 j" by (rule slot_same_store)
        moreover have "slot_same ?out2 out' j" using that by (intro b) auto
        ultimately show ?thesis by (rule slot_same_trans)
      qed
      show ?thesis unfolding step Some using 1 2 by simp
    qed
  qed
qed

text \<open>
  C9. For an input array of \<open>k\<close> values and output arrays of at least \<open>k\<close> entries,
  \<open>solve_batch\<close> returns exactly when every call of \<open>solve_erdos_straus\<close> returns, and
  then slot \<open>i\<close> of the seven output arrays holds the fields of
  \<open>solve_erdos_straus(primes[i])\<close> for every \<open>i < k\<close>; the slots from \<open>k\<close> on are
  untouched. Each element is computed by its own call, in input order.
\<close>

theorem solve_batch_slots:
  assumes "k \<le> length primes" "batch_cap out k"
  shows "case solve_batch mallocs primes (int k) out of
           None \<Rightarrow> \<exists>j. j < k \<and> solve_erdos_straus (mallocs j) (primes ! j) = None
         | Some out' \<Rightarrow>
             (\<forall>j. j < k \<longrightarrow>
                (\<exists>s. solve_erdos_straus (mallocs j) (primes ! j) = Some s \<and> slot_is out' j s))
             \<and> (\<forall>j. k \<le> j \<longrightarrow> slot_same out out' j)"
  using batch_loop_slots [of 0 k primes out mallocs] assms
  by (simp add: solve_batch_def split: option.splits)

theorem solve_batch_slots_witness:
  "\<exists>out'. solve_batch (\<lambda>i. True) [2, 13] 2
       \<lparr>out_a_lo = [0, 0, 7], out_a_hi = [0, 0, 7], out_b_lo = [0, 0, 7], out_b_hi = [0, 0, 7],
        out_c_lo = [0, 0, 7], out_c_hi = [0, 0, 7], out_found = [0, 0, 7]\<rparr> = Some out'
     \<and> out_a_lo out' ! 1 = 4 \<and> out_b_lo out' ! 1 = 18 \<and> out_c_lo out' ! 1 = 468
     \<and> out_found out' ! 1 = 1 \<and> out_found out' ! 2 = 7"
proof -
  let ?out = "\<lparr>out_a_lo = [0, 0, 7], out_a_hi = [0, 0, 7], out_b_lo = [0, 0, 7], out_b_hi = [0, 0, 7],
        out_c_lo = [0, 0, 7], out_c_hi = [0, 0, 7], out_found = [0, 0, 7::int]\<rparr>"
  have h1: "2 \<le> length [2, 13::nat]" by simp
  have h2: "batch_cap ?out 2" by (simp add: batch_cap_def)
  have s2: "solve_erdos_straus True 2 \<noteq> None" by (simp add: solve_erdos_straus_def)
  have ex: "solve_erdos_straus True ([2, 13] ! j) \<noteq> None" if "j < 2" for j
  proof -
    from that have "j = 0 \<or> j = 1" by auto
    then show ?thesis using s2 solve_13_value by auto
  qed
  note t = solve_batch_slots [OF h1 h2, of "\<lambda>i. True"]
  show ?thesis
  proof (cases "solve_batch (\<lambda>i. True) [2, 13] 2 ?out")
    case None
    then have "\<exists>j. j < 2 \<and> solve_erdos_straus True ([2, 13] ! j) = None"
      using t by simp
    then obtain j where "j < 2" "solve_erdos_straus True ([2, 13] ! j) = None" by blast
    then show ?thesis using ex [of j] by simp
  next
    case (Some out')
    with t have all: "\<forall>j. j < 2 \<longrightarrow>
          (\<exists>s. solve_erdos_straus True ([2, 13] ! j) = Some s \<and> slot_is out' j s)"
      and same: "\<forall>j. 2 \<le> j \<longrightarrow> slot_same ?out out' j"
      by simp_all
    from all [rule_format, of 1] have "slot_is out' 1
        \<lparr>a_lo = 4, a_hi = 0, b_lo = 18, b_hi = 0, c_lo = 468, c_hi = 0, found = 1\<rparr>"
      by (simp add: solve_13_value)
    moreover from same [rule_format, of 2] have "slot_same ?out out' 2" by simp
    ultimately show ?thesis using Some by (simp add: slot_is_def slot_same_def)
  qed
qed

section \<open>Verification: primes\<close>

lemma prime_nat_divisors:
  assumes "prime_nat p" "d dvd p"
  shows "d = 1 \<or> d = p"
proof (rule ccontr)
  assume n: "\<not> (d = 1 \<or> d = p)"
  have p: "1 < p" using assms(1) by (simp add: prime_nat_def)
  have "d \<le> p" using assms(2) p by (simp add: dvd_imp_le)
  moreover have "d \<noteq> 0" using assms(2) p by (metis dvd_0_left_iff not_less_zero)
  ultimately have "d \<in> {2..<p}" using n by auto
  then show False using assms by (simp add: prime_nat_def)
qed

lemma prime_natI:
  assumes "1 < p" "\<And>d. 2 \<le> d \<Longrightarrow> d < p \<Longrightarrow> \<not> d dvd p"
  shows "prime_nat p"
  using assms by (simp add: prime_nat_def)

lemma prime_nat_coprime:
  assumes "prime_nat p" "\<not> p dvd a"
  shows "coprime p a"
proof -
  have "gcd p a dvd p" by simp
  then have "gcd p a = 1 \<or> gcd p a = p" using assms(1) by (rule prime_nat_divisors [rotated])
  moreover have "gcd p a \<noteq> p" using assms(2) by (metis gcd_dvd2)
  ultimately show ?thesis by (simp add: coprime_iff_gcd_eq_1)
qed

lemma prime_nat_dvd_mult:
  assumes "prime_nat p" "p dvd a * b"
  shows "p dvd a \<or> p dvd b"
proof (cases "p dvd a")
  case False
  then have "coprime p a" using assms(1) by (rule prime_nat_coprime [rotated])
  then show ?thesis using assms(2) by (simp add: coprime_dvd_mult_right_iff)
qed simp

lemma prime_nat_dvd_power:
  assumes "prime_nat p" "p dvd a ^ e"
  shows "p dvd a"
  using assms(2)
proof (induction e)
  case (Suc e)
  then show ?case using prime_nat_dvd_mult [OF assms(1), of a "a ^ e"] by auto
qed (use assms(1) in \<open>simp add: prime_nat_def\<close>)

text \<open>A number with no divisor in \<open>[2, d)\<close> and below \<open>d * d\<close> is 1 or a prime.\<close>

lemma no_small_divisor_prime:
  assumes "2 \<le> t" "\<And>k. 2 \<le> k \<Longrightarrow> k < d \<Longrightarrow> \<not> k dvd t" "t < d * d"
  shows "prime_nat t"
proof (rule prime_natI)
  show "1 < t" using assms(1) by simp
next
  fix k assume k: "2 \<le> k" "k < t"
  show "\<not> k dvd t"
  proof
    assume kd: "k dvd t"
    then obtain m where m: "t = k * m" by (rule dvdE)
    have md: "m dvd t" using m by simp
    have m2: "2 \<le> m"
    proof (rule ccontr)
      assume "\<not> 2 \<le> m"
      then have "m = 0 \<or> m = 1" by auto
      then show False using m k assms(1) by auto
    qed
    have "d \<le> k" using assms(2) [of k] k kd by (meson not_le)
    moreover have "d \<le> m" using assms(2) [of m] m2 md by (meson not_le)
    ultimately have "d * d \<le> k * m" by (rule mult_le_mono)
    then show False using assms(3) m by simp
  qed
qed

text \<open>The least divisor above 1 is a prime.\<close>

lemma least_divisor_prime:
  assumes "2 \<le> d" "d dvd t" "\<And>k. 2 \<le> k \<Longrightarrow> k < d \<Longrightarrow> \<not> k dvd t"
  shows "prime_nat d"
proof (rule prime_natI)
  show "1 < d" using assms(1) by simp
next
  fix k assume "2 \<le> k" "k < d"
  then have "\<not> k dvd t" by (rule assms(3))
  then show "\<not> k dvd d" using assms(2) by (meson dvd_trans)
qed

section \<open>Verification: the inner loop of the trial division\<close>

lemma strip_factor_returns:
  assumes "2 \<le> d" "0 < temp"
  shows "\<exists>k t. strip_factor temp d e = Some (t, e + k) \<and> temp = t * d ^ k \<and> \<not> d dvd t \<and> 0 < t"
  using assms(2)
proof (induction temp arbitrary: e rule: less_induct)
  case (less temp)
  show ?case
  proof (cases "temp mod d = 0")
    case False
    then have "strip_factor temp d e = Some (temp, e + 0)"
      by (subst strip_factor.simps) simp
    moreover have "\<not> d dvd temp" using False by (simp add: dvd_eq_mod_eq_0)
    ultimately show ?thesis using less.prems by (intro exI [of _ 0] exI [of _ temp]) simp
  next
    case True
    then have t: "temp = (temp div d) * d" by (simp add: mod_eq_0_iff_dvd)
    have pos: "0 < temp div d" using t less.prems by (metis mult_0 neq0_conv)
    have lt: "temp div d < temp" using assms(1) less.prems by simp
    from less.IH [OF lt pos, of "e + 1"]
    obtain k t' where r: "strip_factor (temp div d) d (e + 1) = Some (t', e + 1 + k)"
      "temp div d = t' * d ^ k" "\<not> d dvd t'" "0 < t'" by blast
    have "strip_factor temp d e = Some (t', e + Suc k)"
      using True r(1) by (subst strip_factor.simps) simp
    moreover have "temp = t' * d ^ Suc k" using t r(2) by simp
    ultimately show ?thesis using r(3,4) by blast
  qed
qed

section \<open>Verification: the factor list\<close>

lemma factors_value_append:
  "factors_value (fs @ [(d, e)]) = factors_value fs * d ^ e"
  by (simp add: factors_value_def)

lemma factors_value_Cons:
  "factors_value ((p, e) # fs) = p ^ e * factors_value fs"
  by (simp add: factors_value_def)

lemma factor_list_ok_append:
  assumes "factor_list_ok fs" "\<forall>(p, e) \<in> set fs. p < d" "prime_nat d" "0 < e"
  shows "factor_list_ok (fs @ [(d, e)])"
  using assms by (auto simp: factor_list_ok_def sorted_wrt_append)

lemma power_ge_base:
  fixes p :: nat
  assumes "0 < e" "0 < p"
  shows "p \<le> p ^ e"
  using assms by (cases e) simp_all

lemma three_power_le:
  assumes "\<forall>(p, e) \<in> set fs. 3 \<le> p \<and> 0 < e"
  shows "3 ^ length fs \<le> factors_value fs"
  using assms
proof (induction fs)
  case Nil
  show ?case by (simp add: factors_value_def)
next
  case (Cons f fs)
  obtain p e where f: "f = (p, e)" by (cases f)
  have pe: "3 \<le> p" "0 < e" using Cons.prems f by auto
  then have "3 \<le> p ^ e" using power_ge_base [of e p] by linarith
  moreover have "3 ^ length fs \<le> factors_value fs" using Cons by simp
  ultimately have "3 * 3 ^ length fs \<le> p ^ e * factors_value fs" by (rule mult_le_mono)
  then show ?case by (simp add: f factors_value_Cons)
qed

lemma factor_list_size:
  assumes "factor_list_ok fs" "fs \<noteq> []"
  shows "2 * 3 ^ (length fs - 1) \<le> factors_value fs"
proof -
  obtain p e fs' where fs: "fs = (p, e) # fs'" using assms(2) by (cases fs) auto
  have p: "prime_nat p" "0 < e" using assms(1) by (auto simp: fs factor_list_ok_def)
  then have p2: "2 \<le> p" by (simp add: prime_nat_def)
  then have "2 \<le> p ^ e" using power_ge_base [of e p] p(2) by linarith
  moreover have "3 ^ length fs' \<le> factors_value fs'"
  proof (rule three_power_le, clarify)
    fix q k assume q: "(q, k) \<in> set fs'"
    then have "p < q" using assms(1) by (force simp: fs factor_list_ok_def)
    moreover have "0 < k" using assms(1) q by (auto simp: fs factor_list_ok_def)
    ultimately show "3 \<le> q \<and> 0 < k" using p2 by simp
  qed
  ultimately have "2 * 3 ^ length fs' \<le> p ^ e * factors_value fs'" by (rule mult_le_mono)
  then show ?thesis by (simp add: fs factors_value_Cons)
qed

lemma factor_list_pos: "factor_list_ok fs \<Longrightarrow> 0 < factors_value fs"
  by (induction fs) (auto simp: factor_list_ok_def factors_value_def prime_nat_def)

lemma factor_list_short:
  assumes "factor_list_ok fs" "factors_value fs < 2 ^ 64"
  shows "length fs < 41"
proof (rule ccontr)
  assume "\<not> length fs < 41"
  then have l: "40 \<le> length fs - 1" and ne: "fs \<noteq> []" by auto
  have "(3::nat) ^ 40 \<le> 3 ^ (length fs - 1)" using l by (intro power_increasing) simp_all
  then have "2 * (3::nat) ^ 40 \<le> factors_value fs"
    using factor_list_size [OF assms(1) ne] by linarith
  moreover have "(2::nat) ^ 64 < 2 * 3 ^ 40" by simp
  ultimately show False using assms(2) by linarith
qed

section \<open>Verification: the trial-division loop\<close>

lemma u64_le: "u64 v \<le> v"
  by (simp add: u64_def)

lemma inv_temp_le:
  assumes "trial_inv x temp d fs"
  shows "temp \<le> x" "temp < 2 ^ 64" "factors_value fs < 2 ^ 64" "length fs < 63"
proof -
  have ok: "factor_list_ok fs" and eq: "factors_value fs * temp = x" and x: "x < 2 ^ 64"
    and t: "0 < temp"
    using assms by (simp_all add: trial_inv_def)
  have pos: "0 < factors_value fs" using ok by (rule factor_list_pos)
  show le: "temp \<le> x" using eq pos by (metis One_nat_def Suc_leI mult.commute mult_le_mono2 nat_mult_1_right)
  then show "temp < 2 ^ 64" using x by linarith
  have "factors_value fs \<le> x" using eq t by (metis One_nat_def Suc_leI mult_le_mono2 nat_mult_1_right)
  then show fv: "factors_value fs < 2 ^ 64" using x by linarith
  show "length fs < 63" using factor_list_short [OF ok fv] by simp
qed

lemma inv_d_le_temp:
  assumes "trial_inv x temp d fs" "2 \<le> temp"
  shows "d \<le> temp"
proof (rule ccontr)
  assume "\<not> d \<le> temp"
  then have "2 \<le> temp \<and> temp < d" using assms(2) by simp
  then have "\<not> temp dvd temp" using assms(1) unfolding trial_inv_def by blast
  then show False by simp
qed

lemma inv_body_d:
  assumes "trial_inv x temp d fs" "u64 (d * d) \<le> temp"
  shows "d \<le> 2 ^ 64 - 3"
proof (rule ccontr)
  assume "\<not> d \<le> 2 ^ 64 - 3"
  then have d: "d = 18446744073709551614" using assms(1) by (simp add: trial_inv_def)
  have "u64 (d * d) = 4" unfolding d u64_def by simp
  then have t4: "4 \<le> temp" using assms(2) by simp
  then have "d \<le> temp" using inv_d_le_temp [OF assms(1)] by simp
  moreover have "temp < 2 ^ 64" using assms(1) by (rule inv_temp_le)
  ultimately have "temp = 18446744073709551614 \<or> temp = 18446744073709551615"
    unfolding d two64 by linarith
  moreover have "(2::nat) dvd 18446744073709551614" "(3::nat) dvd 18446744073709551615"
    by simp_all
  moreover have "\<not> 2 dvd temp" "\<not> 3 dvd temp"
    using assms(1) unfolding trial_inv_def d by simp_all
  ultimately show False by auto
qed

lemma inv_exit:
  assumes "trial_inv x temp d fs" "\<not> u64 (d * d) \<le> temp"
  shows "trial_post x temp fs"
proof -
  have lt: "temp < d * d" using assms(2) u64_le [of "d * d"] by linarith
  have nd: "\<And>k. 2 \<le> k \<Longrightarrow> k < d \<Longrightarrow> \<not> k dvd temp"
    using assms(1) by (simp add: trial_inv_def)
  have "temp = 1 \<or> (prime_nat temp \<and> (\<forall>(p, e) \<in> set fs. p < temp))"
  proof (cases "temp = 1")
    case False
    then have t2: "2 \<le> temp" using assms(1) by (simp add: trial_inv_def)
    then have "prime_nat temp" using nd lt by (rule no_small_divisor_prime)
    moreover have "d \<le> temp" using assms(1) t2 by (rule inv_d_le_temp)
    then have "\<forall>(p, e) \<in> set fs. p < temp"
      using assms(1) unfolding trial_inv_def by fastforce
    ultimately show ?thesis by simp
  qed simp
  then show ?thesis
    using assms(1) inv_temp_le(4) [OF assms(1)] by (simp add: trial_post_def trial_inv_def)
qed

lemma inv_step_divides:
  assumes inv: "trial_inv x temp d fs" and body: "u64 (d * d) \<le> temp"
    and t: "temp = t * d ^ k" "\<not> d dvd t" "0 < t" and dv: "d dvd temp"
  shows "trial_inv x t (d + 1) (fs @ [(d, k)])"
proof -
  have d3: "d \<le> 2 ^ 64 - 3" using inv body by (rule inv_body_d)
  have d2: "2 \<le> d" using inv by (simp add: trial_inv_def)
  have nd: "\<And>j. 2 \<le> j \<Longrightarrow> j < d \<Longrightarrow> \<not> j dvd temp"
    using inv by (simp add: trial_inv_def)
  have pr: "prime_nat d" using d2 dv nd by (rule least_divisor_prime)
  have k: "0 < k"
  proof (rule ccontr)
    assume "\<not> 0 < k"
    then have "temp = t" using t(1) by simp
    then show False using dv t(2) by simp
  qed
  have tdv: "t dvd temp" using t(1) by simp
  have nd': "\<not> j dvd t" if "2 \<le> j" "j < d + 1" for j
  proof (cases "j = d")
    case True
    then show ?thesis using t(2) by simp
  next
    case False
    then have "\<not> j dvd temp" using that nd by simp
    then show ?thesis using tdv by (meson dvd_trans)
  qed
  have ok: "factor_list_ok (fs @ [(d, k)])"
    using inv pr k by (intro factor_list_ok_append) (simp_all add: trial_inv_def)
  have val: "factors_value (fs @ [(d, k)]) * t = x"
    using inv t(1) by (simp add: factors_value_append trial_inv_def mult.assoc mult.commute [of t])
  have below: "\<forall>(p, e) \<in> set (fs @ [(d, k)]). p < d + 1"
    using inv unfolding trial_inv_def by fastforce
  have "d + 1 \<le> 2 ^ 64 - 2" using d3 by simp
  then show ?thesis
    unfolding trial_inv_def using d2 t(3) inv val nd' ok below
    by (simp add: trial_inv_def)
qed

lemma inv_step_skip:
  assumes inv: "trial_inv x temp d fs" and body: "u64 (d * d) \<le> temp"
    and dv: "\<not> d dvd temp"
  shows "trial_inv x temp (d + 1) fs"
proof -
  have d3: "d \<le> 2 ^ 64 - 3" using inv body by (rule inv_body_d)
  have nd': "\<not> j dvd temp" if "2 \<le> j" "j < d + 1" for j
    using that inv dv by (cases "j = d") (simp_all add: trial_inv_def)
  have below: "\<forall>(p, e) \<in> set fs. p < d + 1"
    using inv unfolding trial_inv_def by fastforce
  have "d + 1 \<le> 2 ^ 64 - 2" using d3 by simp
  then show ?thesis
    unfolding trial_inv_def using inv nd' below by (simp add: trial_inv_def)
qed

lemma trial_loop_correct:
  "trial_inv x temp d fs \<Longrightarrow> \<exists>t fs'. trial_loop temp d fs = Some (t, fs') \<and> trial_post x t fs'"
proof (induction temp d fs rule: trial_loop.induct)
  case (1 temp d fs)
  note inv = "1.prems"
  have len: "length fs < 63" using inv by (rule inv_temp_le)
  show ?case
  proof (cases "u64 (d * d) \<le> temp")
    case False
    then have "trial_loop temp d fs = Some (temp, fs)"
      by (subst trial_loop.simps) simp
    then show ?thesis using inv_exit [OF inv False] by simp
  next
    case True
    have d3: "d \<le> 2 ^ 64 - 3" using inv True by (rule inv_body_d)
    have d0: "d \<noteq> 0" and d2: "2 \<le> d" and tpos: "0 < temp"
      using inv by (simp_all add: trial_inv_def)
    have inc: "u64 (d + 1) = d + 1" using d3 by (intro u64_id) simp
    have cond: "u64 (d * d) \<le> temp \<and> length fs < 63" using True len by simp
    show ?thesis
    proof (cases "temp mod d = 0")
      case True
      then have dv: "d dvd temp" by (simp add: dvd_eq_mod_eq_0)
      from strip_factor_returns [OF d2 tpos, of 0]
      obtain k t where s: "strip_factor temp d 0 = Some (t, k)"
        and t: "temp = t * d ^ k" "\<not> d dvd t" "0 < t" by auto
      have inv': "trial_inv x t (u64 (d + 1)) (fs @ [(d, k)])"
        unfolding inc using inv \<open>u64 (d * d) \<le> temp\<close> t dv by (rule inv_step_divides)
      have "trial_loop temp d fs = trial_loop t (u64 (d + 1)) (fs @ [(d, k)])"
        using cond d0 True s by (subst trial_loop.simps) simp
      moreover note "1.IH"(1) [OF cond d0 True s refl inv']
      ultimately show ?thesis by simp
    next
      case False
      then have dv: "\<not> d dvd temp" by (simp add: dvd_eq_mod_eq_0)
      have inv': "trial_inv x temp (u64 (d + 1)) fs"
        unfolding inc using inv \<open>u64 (d * d) \<le> temp\<close> dv by (rule inv_step_skip)
      have "trial_loop temp d fs = trial_loop temp (u64 (d + 1)) fs"
        using cond d0 False by (subst trial_loop.simps) simp
      moreover note "1.IH"(2) [OF cond d0 False inv']
      ultimately show ?thesis by simp
    qed
  qed
qed

section \<open>Verification: the factorisation step\<close>

lemma prime_power_dvd_value:
  "(p, e) \<in> set fs \<Longrightarrow> p ^ e dvd factors_value fs"
proof (induction fs)
  case (Cons f fs)
  then show ?case by (cases f) (auto simp: factors_value_Cons)
qed simp

lemma prime_divisor_in_list:
  assumes "\<forall>(p, e) \<in> set fs. prime_nat p" "prime_nat q" "q dvd factors_value fs"
  shows "q \<in> fst ` set fs"
  using assms(1,3)
proof (induction fs)
  case Nil
  then show ?case using assms(2) by (simp add: factors_value_def prime_nat_def)
next
  case (Cons f fs)
  obtain p e where f: "f = (p, e)" by (cases f)
  have "q dvd p ^ e * factors_value fs" using Cons.prems(2) by (simp add: f factors_value_Cons)
  then consider "q dvd p ^ e" | "q dvd factors_value fs"
    using prime_nat_dvd_mult [OF assms(2)] by blast
  then show ?case
  proof cases
    case 1
    then have "q dvd p" using assms(2) by (rule prime_nat_dvd_power [rotated])
    moreover have "prime_nat p" using Cons.prems(1) f by simp
    ultimately have "q = 1 \<or> q = p" by (rule prime_nat_divisors [rotated])
    then show ?thesis using assms(2) f by (auto simp: prime_nat_def)
  next
    case 2
    then have "q \<in> fst ` set fs" using Cons by simp
    then show ?thesis by simp
  qed
qed

lemma prime_divisors_value:
  assumes "factor_list_ok fs"
  shows "{p. prime_nat p \<and> p dvd factors_value fs} = fst ` set fs"
proof (intro equalityI subsetI)
  fix q assume "q \<in> {p. prime_nat p \<and> p dvd factors_value fs}"
  then show "q \<in> fst ` set fs"
    using assms prime_divisor_in_list [of fs q] by (auto simp: factor_list_ok_def)
next
  fix q assume "q \<in> fst ` set fs"
  then obtain e where qe: "(q, e) \<in> set fs" by auto
  then have "prime_nat q" "0 < e" using assms by (auto simp: factor_list_ok_def)
  moreover have "q ^ e dvd factors_value fs" using qe by (rule prime_power_dvd_value)
  ultimately show "q \<in> {p. prime_nat p \<and> p dvd factors_value fs}"
    by (metis (mono_tags, lifting) dvd_power dvd_trans mem_Collect_eq)
qed

lemma trial_inv_start:
  assumes "0 < x" "x < 2 ^ 64"
  shows "trial_inv x x 2 []"
  using assms by (auto simp add: trial_inv_def factors_value_def factor_list_ok_def)

lemma factor_x_value:
  assumes "0 < x" "x < 2 ^ 64"
  shows "\<exists>fs. factor_x x = Some fs \<and> factors_value fs = x \<and> factor_list_ok fs"
proof -
  from trial_loop_correct [OF trial_inv_start [OF assms]]
  obtain t fs where r: "trial_loop x 2 [] = Some (t, fs)" and post: "trial_post x t fs"
    by blast
  have len: "length fs < 63" and val: "factors_value fs * t = x" and ok: "factor_list_ok fs"
    using post by (simp_all add: trial_post_def)
  show ?thesis
  proof (cases "t = 1")
    case True
    then have "factor_x x = Some fs" using r by (simp add: factor_x_def)
    then show ?thesis using val ok True by simp
  next
    case False
    then have pt: "prime_nat t" and below: "\<forall>(p, e) \<in> set fs. p < t"
      using post by (simp_all add: trial_post_def)
    then have "1 < t" by (simp add: prime_nat_def)
    then have "factor_x x = Some (fs @ [(t, 1)])" using r len by (simp add: factor_x_def)
    moreover have "factor_list_ok (fs @ [(t, 1)])"
      using ok below pt by (rule factor_list_ok_append) simp
    moreover have "factors_value (fs @ [(t, 1)]) = x" using val by (simp add: factors_value_append)
    ultimately show ?thesis by simp
  qed
qed

text \<open>
  C5. For every \<open>x\<close> with \<open>0 < x < 2^64\<close> the factorisation step returns (it neither
  divides by zero nor runs forever, although \<open>d * d\<close> wraps for \<open>d \<ge> 2^32\<close>), and the
  list it returns is the complete prime factorisation of \<open>x\<close>: primes with positive
  exponents, strictly increasing, whose product of powers is \<open>x\<close>, and whose primes are
  all the prime divisors of \<open>x\<close>. The code has no overflow indicator; its capacity check
  \<open>nfactors < 63\<close> never cuts the list, since a 64-bit number has fewer than 41 distinct
  prime factors, which is also below the capacity of 64.
\<close>

theorem factor_x_complete:
  assumes "0 < x" "x < 2 ^ 64"
  shows "\<exists>fs. factor_x x = Some fs \<and> factors_value fs = x \<and> factor_list_ok fs
           \<and> fst ` set fs = {p. prime_nat p \<and> p dvd x}
           \<and> card {p. prime_nat p \<and> p dvd x} = length fs \<and> length fs < 41"
proof -
  from factor_x_value [OF assms]
  obtain fs where r: "factor_x x = Some fs" "factors_value fs = x" "factor_list_ok fs" by blast
  have pd: "fst ` set fs = {p. prime_nat p \<and> p dvd x}"
    using prime_divisors_value [OF r(3)] r(2) by simp
  have "sorted_wrt (<) (map fst fs)" using r(3) unfolding factor_list_ok_def by (rule conjunct2)
  then have "distinct (map fst fs)" unfolding strict_sorted_iff by (rule conjunct2)
  then have "card (fst ` set fs) = length fs"
    by (metis distinct_card length_map set_map)
  moreover have "length fs < 41" using r(3) assms(2) r(2) by (intro factor_list_short) simp_all
  ultimately show ?thesis using r pd by auto
qed

lemma factor_x_360: "factor_x 360 = Some [(2, 3), (3, 2), (5, 1)]"
  by (simp add: factor_x_def trial_loop.simps strip_factor.simps u64_def)

theorem factor_x_complete_witness:
  "factor_x 360 = Some [(2, 3), (3, 2), (5, 1)] \<and> factors_value [(2, 3), (3, 2), (5, 1)] = 360
     \<and> factor_list_ok [(2, 3), (3, 2), (5, 1)] \<and> card {p. prime_nat p \<and> p dvd (360::nat)} = 3"
  using factor_x_complete [of 360] by (simp add: factor_x_360)

section \<open>Verification: the expansion of the factor list\<close>

lemma take_take_append: "take n (take n xs @ ys) = take n (xs @ ys)"
  by (cases "n \<le> length xs") (simp_all add: min_def)

lemma expand_j_eq:
  assumes "j \<le> prev" "prev \<le> length divs" "length divs \<le> MAX_DIVS"
  shows "expand_j divs pe prev j
           = take MAX_DIVS (divs @ map (\<lambda>d. u64 (d * pe)) (drop j (take prev divs)))"
  using assms
proof (induction "prev - j" arbitrary: j divs)
  case 0
  then have "j = prev" by simp
  then show ?case using "0.prems" by (subst expand_j.simps) simp
next
  case (Suc n)
  then have j: "j < prev" by simp
  show ?case
  proof (cases "length divs < MAX_DIVS")
    case False
    then have "length divs = MAX_DIVS" using Suc.prems by simp
    then show ?thesis by (subst expand_j.simps) simp
  next
    case True
    let ?v = "u64 (divs ! j * pe)"
    have n: "n = prev - (j + 1)" using Suc.hyps(2) by simp
    have tk: "take prev (divs @ [?v]) = take prev divs" using Suc.prems(2) by simp
    have "drop j (take prev divs) = (take prev divs ! j) # drop (Suc j) (take prev divs)"
      using j Suc.prems(2) by (intro Cons_nth_drop_Suc [symmetric]) simp
    then have dr: "drop j (take prev divs) = divs ! j # drop (j + 1) (take prev divs)"
      using j by simp
    have "expand_j divs pe prev j = expand_j (divs @ [?v]) pe prev (j + 1)"
      using j True by (subst expand_j.simps) simp
    also have "\<dots> = take MAX_DIVS ((divs @ [?v])
          @ map (\<lambda>d. u64 (d * pe)) (drop (j + 1) (take prev (divs @ [?v]))))"
      using j True Suc.prems by (intro Suc.hyps(1) [OF n]) simp_all
    finally show ?thesis unfolding tk dr by simp
  qed
qed

lemma expand_e_eq:
  assumes "e \<le> ex" "prev \<le> length divs" "length divs \<le> MAX_DIVS"
  shows "expand_e divs prime ex prev pe e
           = take MAX_DIVS (divs @ scaled_blocks (take prev divs) prime pe (ex - e))"
  using assms
proof (induction "ex - e" arbitrary: e divs pe)
  case 0
  then have "e = ex" by simp
  then show ?case using "0.prems" by (subst expand_e.simps) simp
next
  case (Suc n)
  then have e: "e < ex" by simp
  have exe: "ex - e = Suc n" using Suc.hyps(2) by simp
  show ?case
  proof (cases "length divs < MAX_DIVS")
    case False
    then have "length divs = MAX_DIVS" using Suc.prems by simp
    then show ?thesis by (subst expand_e.simps) simp
  next
    case True
    let ?pe = "u64 (pe * prime)"
    let ?B = "map (\<lambda>d. u64 (d * ?pe)) (take prev divs)"
    let ?D = "take MAX_DIVS (divs @ ?B)"
    have n: "n = ex - (e + 1)" using Suc.hyps(2) by simp
    have j: "expand_j divs ?pe prev 0 = ?D"
      using Suc.prems by (subst expand_j_eq) simp_all
    have lenD: "length ?D \<le> MAX_DIVS" by simp
    have prevD: "prev \<le> length ?D" using Suc.prems by simp
    have tk: "take prev ?D = take prev divs" using Suc.prems by (simp add: min_def)
    have "expand_e divs prime ex prev pe e = expand_e ?D prime ex prev ?pe (e + 1)"
      using e True j by (subst expand_e.simps) simp
    also have "\<dots> = take MAX_DIVS (?D @ scaled_blocks (take prev ?D) prime ?pe (ex - (e + 1)))"
      using e prevD lenD by (intro Suc.hyps(1) [OF n]) simp_all
    also have "\<dots> = take MAX_DIVS ((divs @ ?B) @ scaled_blocks (take prev divs) prime ?pe n)"
      unfolding tk n [symmetric] by (rule take_take_append)
    finally show ?thesis unfolding exe by simp
  qed
qed

lemma all_products_prefix: "\<exists>r. all_products divs fs = divs @ r"
proof (induction fs arbitrary: divs)
  case (Cons f fs)
  obtain p e where f: "f = (p, e)" by (cases f)
  from Cons [of "divs @ scaled_blocks divs p 1 e"] show ?case by (auto simp: f)
qed simp

lemma take_all_products:
  assumes "n \<le> length divs"
  shows "take n (all_products divs fs) = take n divs"
proof -
  obtain r where "all_products divs fs = divs @ r" using all_products_prefix by blast
  then show ?thesis using assms by simp
qed

lemma all_products_take:
  "take n (all_products (take n divs) fs) = take n (all_products divs fs)"
proof (cases "n \<le> length divs")
  case True
  then show ?thesis by (simp add: take_all_products)
next
  case False
  then show ?thesis by simp
qed

lemma expand_i_eq:
  assumes "length divs \<le> MAX_DIVS"
  shows "expand_i divs fs = take MAX_DIVS (all_products divs fs)"
  using assms
proof (induction fs arbitrary: divs)
  case Nil
  then show ?case by simp
next
  case (Cons f fs)
  obtain p e where f: "f = (p, e)" by (cases f)
  show ?case
  proof (cases "length divs < MAX_DIVS")
    case False
    then have "length divs = MAX_DIVS" using Cons.prems by simp
    then show ?thesis by (simp add: f take_all_products)
  next
    case True
    let ?L = "divs @ scaled_blocks divs p 1 e"
    have "expand_e divs p e (length divs) 1 0 = take MAX_DIVS ?L"
      using Cons.prems by (subst expand_e_eq) simp_all
    then have "expand_i divs (f # fs) = expand_i (take MAX_DIVS ?L) fs"
      using True by (simp add: f)
    also have "\<dots> = take MAX_DIVS (all_products (take MAX_DIVS ?L) fs)"
      by (rule Cons.IH) simp
    also have "\<dots> = take MAX_DIVS (all_products ?L fs)" by (rule all_products_take)
    finally show ?thesis by (simp add: f)
  qed
qed

section \<open>Verification: products of prime powers\<close>

lemma prime_power_split:
  assumes "prime_nat p" "d dvd m * p ^ e"
  shows "\<exists>k d'. k \<le> e \<and> d' dvd m \<and> d = d' * p ^ k"
  using assms(2)
proof (induction e arbitrary: d)
  case 0
  then show ?case by (intro exI [of _ 0] exI [of _ d]) simp
next
  case (Suc e)
  show ?case
  proof (cases "p dvd d")
    case True
    then obtain d1 where d1: "d = p * d1" by (rule dvdE)
    have p0: "p \<noteq> 0" using assms(1) by (simp add: prime_nat_def)
    have "p * d1 dvd p * (m * p ^ e)" using Suc.prems d1 by (simp add: mult.assoc mult.left_commute)
    then have "d1 dvd m * p ^ e" using p0 by simp
    from Suc.IH [OF this] obtain k d' where "k \<le> e" "d' dvd m" "d1 = d' * p ^ k" by blast
    then have "Suc k \<le> Suc e \<and> d' dvd m \<and> d = d' * p ^ Suc k" using d1 by simp
    then show ?thesis by blast
  next
    case False
    then have "coprime p d" using assms(1) by (rule prime_nat_coprime [rotated])
    then have "coprime d p" by (simp add: coprime_commute)
    moreover have "d dvd (m * p ^ e) * p" using Suc.prems by (simp add: mult.assoc mult.commute [of p])
    ultimately have "d dvd m * p ^ e" by (simp add: coprime_dvd_mult_left_iff)
    from Suc.IH [OF this] obtain k d' where "k \<le> e" "d' dvd m" "d = d' * p ^ k" by blast
    then have "k \<le> Suc e \<and> d' dvd m \<and> d = d' * p ^ k" by simp
    then show ?thesis by blast
  qed
qed

lemma power_mult_unique:
  fixes p :: nat
  assumes "2 \<le> p" "\<not> p dvd d" "\<not> p dvd d'" "d * p ^ a = d' * p ^ b"
  shows "a = b \<and> d = d'"
proof -
  have aux: "a' = b' \<and> c = c'"
    if "a' \<le> b'" "\<not> p dvd c" "c * p ^ a' = c' * p ^ b'" for a' b' c c'
  proof -
    have "c' * p ^ b' = (c' * p ^ (b' - a')) * p ^ a'"
      using that(1) by (simp add: mult.assoc power_add [symmetric])
    then have "c * p ^ a' = (c' * p ^ (b' - a')) * p ^ a'" using that(3) by simp
    then have c: "c = c' * p ^ (b' - a')" using assms(1) by simp
    have "b' - a' = 0"
    proof (rule ccontr)
      assume "b' - a' \<noteq> 0"
      then have "p dvd p ^ (b' - a')" by simp
      then have "p dvd c" unfolding c by (rule dvd_mult)
      then show False using that(2) by simp
    qed
    then show ?thesis using c that(1) by simp
  qed
  show ?thesis
  proof (cases "a \<le> b")
    case True
    then show ?thesis using aux [of a b d d'] assms by simp
  next
    case False
    then have "b \<le> a" by simp
    then show ?thesis using aux [of b a d' d] assms by simp
  qed
qed

lemma scaled_blocks_Nil: "scaled_blocks [] p pe n = []"
  by (induction n arbitrary: pe) simp_all

lemma length_scaled_blocks: "length (scaled_blocks base p pe n) = n * length base"
  by (induction n arbitrary: pe) simp_all

lemma scaled_blocks_props:
  assumes "2 \<le> p" "distinct base" "\<forall>d \<in> set base. \<not> p dvd d"
    "\<forall>d \<in> set base. d * p ^ (m + n) < 2 ^ 64"
  shows "distinct (scaled_blocks base p (p ^ m) n)
     \<and> set (scaled_blocks base p (p ^ m) n)
         = {d * p ^ k | d k. d \<in> set base \<and> m < k \<and> k \<le> m + n}"
proof (cases "base = []")
  case True
  then show ?thesis by (simp add: scaled_blocks_Nil)
next
  case False
  then obtain d0 where d0: "d0 \<in> set base" by (cases base) auto
  then have "d0 \<noteq> 0" using assms(3) by (metis dvd_0_right)
  then have d0pos: "1 \<le> d0" by simp
  show ?thesis
    using assms(4)
  proof (induction n arbitrary: m)
    case 0
    show ?case by auto
  next
    case (Suc n)
    have bound: "d * p ^ k < 2 ^ 64" if "d \<in> set base" "k \<le> m + Suc n" for d k
    proof -
      have "p ^ k \<le> p ^ (m + Suc n)" using that(2) assms(1) by (intro power_increasing) simp_all
      then have "d * p ^ k \<le> d * p ^ (m + Suc n)" by (rule mult_le_mono2)
      then show ?thesis using Suc.prems that(1) by (meson le_less_trans)
    qed
    have "1 * p ^ Suc m \<le> d0 * p ^ Suc m" using d0pos by (rule mult_le_mono1)
    moreover have "d0 * p ^ Suc m < 2 ^ 64" using bound [OF d0, of "Suc m"] by simp
    ultimately have "p ^ Suc m < 2 ^ 64" by (simp only: mult_1 le_less_trans)
    then have pe: "u64 (p ^ m * p) = p ^ Suc m" by (simp add: u64_id mult.commute)
    have first: "map (\<lambda>d. u64 (d * u64 (p ^ m * p))) base = map (\<lambda>d. d * p ^ Suc m) base"
      unfolding pe using bound [of _ "Suc m"] by (intro map_cong refl u64_id) simp
    have step: "scaled_blocks base p (p ^ m) (Suc n)
          = map (\<lambda>d. d * p ^ Suc m) base @ scaled_blocks base p (p ^ Suc m) n"
      using first pe by simp
    have "\<forall>d \<in> set base. d * p ^ (Suc m + n) < 2 ^ 64" using Suc.prems by simp
    from Suc.IH [OF this]
    have IHd: "distinct (scaled_blocks base p (p ^ Suc m) n)"
      and IHs: "set (scaled_blocks base p (p ^ Suc m) n)
         = {d * p ^ k | d k. d \<in> set base \<and> Suc m < k \<and> k \<le> Suc m + n}"
      by simp_all
    have ppos: "0 < p ^ Suc m" using assms(1) by simp
    have "inj_on (\<lambda>d. d * p ^ Suc m) (set base)"
      using ppos by (intro inj_onI) simp
    then have d1: "distinct (map (\<lambda>d. d * p ^ Suc m) base)"
      using assms(2) by (simp add: distinct_map)
    have disj: "set (map (\<lambda>d. d * p ^ Suc m) base) \<inter> set (scaled_blocks base p (p ^ Suc m) n) = {}"
    proof (rule ccontr)
      assume "\<not> ?thesis"
      then obtain v where "v \<in> set (map (\<lambda>d. d * p ^ Suc m) base)"
        "v \<in> set (scaled_blocks base p (p ^ Suc m) n)" by blast
      then obtain d d' k where "d \<in> set base" "v = d * p ^ Suc m"
        "d' \<in> set base" "Suc m < k" "v = d' * p ^ k"
        unfolding IHs by auto
      then have "Suc m = k"
        using power_mult_unique [OF assms(1), of d d' "Suc m" k] assms(3) by auto
      then show False using \<open>Suc m < k\<close> by simp
    qed
    have dist: "distinct (scaled_blocks base p (p ^ m) (Suc n))"
      unfolding step using d1 IHd disj by simp
    have "set (scaled_blocks base p (p ^ m) (Suc n))
        = {d * p ^ Suc m | d. d \<in> set base}
          \<union> {d * p ^ k | d k. d \<in> set base \<and> Suc m < k \<and> k \<le> Suc m + n}"
      unfolding step using IHs by auto
    also have "\<dots> = {d * p ^ k | d k. d \<in> set base \<and> m < k \<and> k \<le> m + Suc n}"
    proof (intro equalityI subsetI)
      fix v assume "v \<in> {d * p ^ Suc m | d. d \<in> set base}
          \<union> {d * p ^ k | d k. d \<in> set base \<and> Suc m < k \<and> k \<le> Suc m + n}"
      then consider d where "v = d * p ^ Suc m" "d \<in> set base"
        | d k where "v = d * p ^ k" "d \<in> set base" "Suc m < k" "k \<le> Suc m + n"
        by blast
      then show "v \<in> {d * p ^ k | d k. d \<in> set base \<and> m < k \<and> k \<le> m + Suc n}"
      proof cases
        case 1
        then have "v = d * p ^ Suc m \<and> d \<in> set base \<and> m < Suc m \<and> Suc m \<le> m + Suc n"
          by simp
        then show ?thesis by blast
      next
        case 2
        then have "v = d * p ^ k \<and> d \<in> set base \<and> m < k \<and> k \<le> m + Suc n"
          by simp
        then show ?thesis by blast
      qed
    next
      fix v assume "v \<in> {d * p ^ k | d k. d \<in> set base \<and> m < k \<and> k \<le> m + Suc n}"
      then obtain d k where v: "v = d * p ^ k" "d \<in> set base" "m < k" "k \<le> m + Suc n" by blast
      show "v \<in> {d * p ^ Suc m | d. d \<in> set base}
          \<union> {d * p ^ k | d k. d \<in> set base \<and> Suc m < k \<and> k \<le> Suc m + n}"
      proof (cases "k = Suc m")
        case True
        then show ?thesis using v by blast
      next
        case False
        then have "Suc m < k \<and> k \<le> Suc m + n" using v by simp
        then show ?thesis using v by blast
      qed
    qed
    finally show ?case using dist by simp
  qed
qed

section \<open>Verification: the uncapped enumeration lists the divisors\<close>

lemma factors_value_pos:
  assumes "\<forall>(q, e) \<in> set fs. prime_nat q"
  shows "0 < factors_value fs"
  using assms by (induction fs) (auto simp: factors_value_def prime_nat_def)

lemma prime_not_dvd_step:
  assumes "prime_nat q" "prime_nat p" "q \<noteq> p" "\<not> q dvd M"
  shows "\<not> q dvd M * p ^ e"
proof
  assume "q dvd M * p ^ e"
  then have "q dvd p ^ e" using prime_nat_dvd_mult [OF assms(1)] assms(4) by blast
  then have "q dvd p" using assms(1) by (rule prime_nat_dvd_power [rotated])
  then have "q = 1 \<or> q = p" using assms(2) by (rule prime_nat_divisors [rotated])
  then show False using assms(1,3) by (auto simp: prime_nat_def)
qed

lemma step_products:
  assumes "prime_nat p" "distinct divs" "set divs = {d. d dvd M}" "0 < M" "\<not> p dvd M"
    "M * p ^ e < 2 ^ 64"
  shows "distinct (divs @ scaled_blocks divs p 1 e)"
    and "set (divs @ scaled_blocks divs p 1 e) = {d. d dvd M * p ^ e}"
proof -
  have p2: "2 \<le> p" using assms(1) by (simp add: prime_nat_def)
  have nd: "\<forall>d \<in> set divs. \<not> p dvd d"
    using assms(3,5) by (auto dest: dvd_trans)
  have bd: "\<forall>d \<in> set divs. d * p ^ (0 + e) < 2 ^ 64"
  proof
    fix d assume "d \<in> set divs"
    then have "d \<le> M" using assms(3,4) by (auto dest: dvd_imp_le)
    then have "d * p ^ e \<le> M * p ^ e" by (rule mult_le_mono1)
    then have "d * p ^ e < 2 ^ 64" using assms(6) by (rule le_less_trans)
    then show "d * p ^ (0 + e) < 2 ^ 64" by simp
  qed
  from scaled_blocks_props [OF p2 assms(2) nd bd]
  have bdist: "distinct (scaled_blocks divs p 1 e)"
    and bset: "set (scaled_blocks divs p 1 e) = {d * p ^ k | d k. d \<in> set divs \<and> 0 < k \<and> k \<le> e}"
    by simp_all
  have disj: "set divs \<inter> set (scaled_blocks divs p 1 e) = {}"
  proof (rule ccontr)
    assume "\<not> ?thesis"
    then obtain v where "v \<in> set divs" "v \<in> set (scaled_blocks divs p 1 e)" by blast
    then obtain d k where "v = d * p ^ k" "0 < k" unfolding bset by blast
    then have "p dvd v" by simp
    then show False using nd \<open>v \<in> set divs\<close> by blast
  qed
  show "distinct (divs @ scaled_blocks divs p 1 e)"
    using assms(2) bdist disj by simp
  show "set (divs @ scaled_blocks divs p 1 e) = {d. d dvd M * p ^ e}"
  proof (intro equalityI subsetI)
    fix v assume "v \<in> set (divs @ scaled_blocks divs p 1 e)"
    then consider "v \<in> set divs" | d k where "v = d * p ^ k" "d \<in> set divs" "k \<le> e"
      unfolding set_append bset by blast
    then show "v \<in> {d. d dvd M * p ^ e}"
    proof cases
      case 1
      then show ?thesis using assms(3) by simp
    next
      case 2
      then have "d dvd M" using assms(3) by simp
      moreover have "p ^ k dvd p ^ e" using 2(3) by (rule le_imp_power_dvd)
      ultimately show ?thesis unfolding 2(1) by (simp add: mult_dvd_mono)
    qed
  next
    fix v assume "v \<in> {d. d dvd M * p ^ e}"
    then have "v dvd M * p ^ e" by simp
    from prime_power_split [OF assms(1) this]
    obtain k d' where kd: "k \<le> e" "d' dvd M" "v = d' * p ^ k" by blast
    then have d': "d' \<in> set divs" using assms(3) by simp
    show "v \<in> set (divs @ scaled_blocks divs p 1 e)"
    proof (cases "k = 0")
      case True
      then show ?thesis using kd d' by simp
    next
      case False
      then have "v = d' * p ^ k \<and> d' \<in> set divs \<and> 0 < k \<and> k \<le> e" using kd d' by simp
      then have "v \<in> set (scaled_blocks divs p 1 e)" unfolding bset by blast
      then show ?thesis by simp
    qed
  qed
qed

lemma all_products_divisors:
  assumes "distinct divs" "set divs = {d. d dvd M}" "0 < M"
    "\<forall>(q, e) \<in> set fs. prime_nat q \<and> \<not> q dvd M" "distinct (map fst fs)"
    "M * factors_value fs < 2 ^ 64"
  shows "distinct (all_products divs fs)
     \<and> set (all_products divs fs) = {d. d dvd M * factors_value fs}"
  using assms
proof (induction fs arbitrary: divs M)
  case Nil
  then show ?case by (simp add: factors_value_def)
next
  case (Cons f fs)
  obtain p e where f: "f = (p, e)" by (cases f)
  have pp: "prime_nat p" and pM: "\<not> p dvd M" using Cons.prems(4) f by auto
  have rest: "\<forall>(q, e) \<in> set fs. prime_nat q" using Cons.prems(4) by auto
  have fvpos: "1 \<le> factors_value fs" using factors_value_pos [OF rest] by simp
  have val: "M * factors_value (f # fs) = (M * p ^ e) * factors_value fs"
    by (simp add: f factors_value_Cons mult.assoc)
  have "(M * p ^ e) * 1 \<le> (M * p ^ e) * factors_value fs" using fvpos by (rule mult_le_mono2)
  moreover have "(M * p ^ e) * factors_value fs < 2 ^ 64" using Cons.prems(6) unfolding val .
  ultimately have "(M * p ^ e) * 1 < 2 ^ 64" by (rule le_less_trans)
  then have b1: "M * p ^ e < 2 ^ 64" by (simp only: mult_1_right)
  note st = step_products [OF pp Cons.prems(1,2,3) pM b1]
  have ppos: "0 < M * p ^ e" using Cons.prems(3) pp by (simp add: prime_nat_def)
  have nd: "\<forall>(q, k) \<in> set fs. prime_nat q \<and> \<not> q dvd M * p ^ e"
  proof (clarify, rule conjI)
    fix q k assume qk: "(q, k) \<in> set fs"
    then show "prime_nat q" using rest by auto
    have "q \<noteq> p" using Cons.prems(5) qk by (force simp: f)
    moreover have "\<not> q dvd M" using Cons.prems(4) qk by auto
    ultimately show "\<not> q dvd M * p ^ e"
      using qk rest pp by (intro prime_not_dvd_step) auto
  qed
  have dist: "distinct (map fst fs)" using Cons.prems(5) by simp
  have b2: "M * p ^ e * factors_value fs < 2 ^ 64" using Cons.prems(6) unfolding val .
  from Cons.IH [OF st(1) st(2) ppos nd dist b2]
  show ?case unfolding val by (simp add: f)
qed

section \<open>Verification: the combined factor list\<close>

lemma combine_loop_eq:
  "combine_loop p fs acc b
     = (acc @ map (\<lambda>(q, e). (q, if q = p then 2 * e + 2 else 2 * e)) fs, b \<or> p \<in> fst ` set fs)"
  by (induction fs arbitrary: acc b) (auto simp: case_prod_beta)

lemma all_factors_eq:
  "all_factors p fs
     = map (\<lambda>(q, e). (q, if q = p then 2 * e + 2 else 2 * e)) fs
       @ (if p \<in> fst ` set fs then [] else [(p, 2)])"
  by (simp add: all_factors_def combine_loop_eq)

lemma doubled_value:
  assumes "distinct (map fst fs)"
  shows "factors_value (map (\<lambda>(q, e). (q, if q = p then 2 * e + 2 else 2 * e)) fs)
           = (factors_value fs)\<^sup>2 * (if p \<in> fst ` set fs then p\<^sup>2 else 1)"
  using assms
proof (induction fs)
  case Nil
  show ?case by (simp add: factors_value_def)
next
  case (Cons f fs)
  obtain q e where f: "f = (q, e)" by (cases f)
  have IH: "factors_value (map (\<lambda>(q, e). (q, if q = p then 2 * e + 2 else 2 * e)) fs)
           = (factors_value fs)\<^sup>2 * (if p \<in> fst ` set fs then p\<^sup>2 else 1)"
    using Cons by simp
  have ev: "q ^ (2 * e) = (q ^ e)\<^sup>2"
    by (simp add: power_mult [symmetric] mult.commute)
  have ev2: "q ^ (2 * e + 2) = (q ^ e)\<^sup>2 * q\<^sup>2"
    by (simp add: power_add ev power2_eq_square)
  show ?case
  proof (cases "q = p")
    case True
    then have "p \<notin> fst ` set fs" using Cons.prems f by auto
    then have "factors_value (map (\<lambda>(q, e). (q, if q = p then 2 * e + 2 else 2 * e)) (f # fs))
        = ((q ^ e)\<^sup>2 * q\<^sup>2) * (factors_value fs)\<^sup>2"
      using IH True ev2 by (simp add: f factors_value_Cons)
    also have "\<dots> = (q ^ e * factors_value fs)\<^sup>2 * q\<^sup>2"
      by (simp add: power_mult_distrib)
    finally show ?thesis using True by (simp add: f factors_value_Cons)
  next
    case False
    then have "factors_value (map (\<lambda>(q, e). (q, if q = p then 2 * e + 2 else 2 * e)) (f # fs))
        = (q ^ e)\<^sup>2 * ((factors_value fs)\<^sup>2 * (if p \<in> fst ` set fs then p\<^sup>2 else 1))"
      using IH ev by (simp add: f factors_value_Cons)
    also have "\<dots> = (q ^ e * factors_value fs)\<^sup>2 * (if p \<in> fst ` set fs then p\<^sup>2 else 1)"
      by (simp add: power_mult_distrib)
    finally show ?thesis using False by (simp add: f factors_value_Cons)
  qed
qed

lemma all_factors_value:
  assumes "distinct (map fst fs)"
  shows "factors_value (all_factors p fs) = p\<^sup>2 * (factors_value fs)\<^sup>2"
proof -
  have "factors_value (xs @ ys) = factors_value xs * factors_value ys" for xs ys
    by (simp add: factors_value_def)
  then show ?thesis
    unfolding all_factors_eq using doubled_value [OF assms, of p]
    by (simp add: factors_value_def)
qed

lemma all_factors_primes:
  assumes "prime_nat p" "\<forall>(q, e) \<in> set fs. prime_nat q"
  shows "\<forall>(q, e) \<in> set (all_factors p fs). prime_nat q"
  using assms unfolding all_factors_eq by auto

lemma all_factors_distinct:
  assumes "distinct (map fst fs)"
  shows "distinct (map fst (all_factors p fs))"
proof -
  have "map fst (all_factors p fs) = map fst fs @ (if p \<in> fst ` set fs then [] else [p])"
    by (simp add: all_factors_eq case_prod_beta comp_def)
  then show ?thesis using assms by auto
qed

section \<open>Verification: the divisor enumerator\<close>

lemma card_divisors_le:
  assumes "0 < n"
  shows "finite {d. d dvd n}" "card {d. d dvd n} \<le> n"
proof -
  have sub: "{d. d dvd n} \<subseteq> {1..n}"
    using assms by (auto dest: dvd_imp_le intro: Suc_leI dvd_pos_nat)
  then show "finite {d. d dvd n}" by (rule finite_subset) simp
  have "card {d. d dvd n} \<le> card {1..n}" using sub by (intro card_mono) simp_all
  then show "card {d. d dvd n} \<le> n" by simp
qed

lemma get_divisors_uncapped:
  assumes "factor_x x = Some fs"
  shows "get_divisors_p2x2 p x = Some (take MAX_DIVS (all_products [1] (all_factors p fs)))"
  using assms by (simp add: get_divisors_p2x2_def expand_i_eq MAX_DIVS_def)

text \<open>
  C2, as the code has it. For a prime \<open>p\<close> and \<open>x > 0\<close> with \<open>p\<^sup>2x\<^sup>2 < 2^64\<close> (so
  that no 64-bit product wraps) and at most \<open>MAX_DIVS = 16384\<close> divisors of \<open>p\<^sup>2x\<^sup>2\<close>,
  the enumerator returns each divisor of \<open>p\<^sup>2x\<^sup>2\<close> exactly once and nothing else.
\<close>

theorem get_divisors_prime:
  assumes "prime_nat p" "0 < x" "(p * x)\<^sup>2 < 2 ^ 64" "card {d. d dvd (p * x)\<^sup>2} \<le> MAX_DIVS"
  shows "\<exists>ds. get_divisors_p2x2 p x = Some ds \<and> distinct ds
           \<and> set ds = {d. d dvd p\<^sup>2 * x\<^sup>2}"
proof -
  have ppos: "1 \<le> p" using assms(1) by (simp add: prime_nat_def)
  have "x * 1 \<le> x * (p * (p * x))" using ppos assms(2) by (intro mult_le_mono2) simp
  then have "x \<le> (p * x)\<^sup>2" by (simp add: power2_eq_square mult.left_commute mult.commute)
  then have x64: "x < 2 ^ 64" using assms(3) by (rule le_less_trans)
  from factor_x_value [OF assms(2) x64]
  obtain fs where fs: "factor_x x = Some fs" "factors_value fs = x" "factor_list_ok fs" by blast
  let ?afs = "all_factors p fs"
  let ?L = "all_products [1] ?afs"
  have "sorted_wrt (<) (map fst fs)" using fs(3) unfolding factor_list_ok_def by (rule conjunct2)
  then have dist: "distinct (map fst fs)" unfolding strict_sorted_iff by (rule conjunct2)
  have primes: "\<forall>(q, e) \<in> set fs. prime_nat q" using fs(3) by (auto simp: factor_list_ok_def)
  have val: "factors_value ?afs = p\<^sup>2 * x\<^sup>2"
    using all_factors_value [OF dist, of p] fs(2) by simp
  have N: "p\<^sup>2 * x\<^sup>2 = (p * x)\<^sup>2" by (simp add: power_mult_distrib)
  have aprimes: "\<forall>(q, e) \<in> set ?afs. prime_nat q \<and> \<not> q dvd 1"
    using all_factors_primes [OF assms(1) primes] by (auto simp: prime_nat_def)
  have adist: "distinct (map fst ?afs)" using dist by (rule all_factors_distinct)
  have bound: "1 * factors_value ?afs < 2 ^ 64" using assms(3) val N by simp
  have one: "set [1::nat] = {d. d dvd 1}" by auto
  from all_products_divisors [OF _ one _ aprimes adist bound]
  have Ld: "distinct ?L" and Ls: "set ?L = {d. d dvd p\<^sup>2 * x\<^sup>2}"
    using val by simp_all
  have "length ?L = card (set ?L)" using Ld by (simp add: distinct_card)
  then have "length ?L \<le> MAX_DIVS" using assms(4) Ls N by simp
  then have "take MAX_DIVS ?L = ?L" by simp
  then have "get_divisors_p2x2 p x = Some ?L"
    using get_divisors_uncapped [OF fs(1), of p] by simp
  then show ?thesis using Ld Ls by simp
qed

lemma factor_x_12: "factor_x 12 = Some [(2, 2), (3, 1)]"
  by (simp add: factor_x_def trial_loop.simps strip_factor.simps u64_def)

lemma divisors_5_12:
  "get_divisors_p2x2 5 12 =
     Some [1, 2, 4, 8, 16, 3, 6, 12, 24, 48, 9, 18, 36, 72, 144, 5, 10, 20, 40, 80,
           15, 30, 60, 120, 240, 45, 90, 180, 360, 720, 25, 50, 100, 200, 400, 75,
           150, 300, 600, 1200, 225, 450, 900, 1800, 3600]"
  by (simp add: get_divisors_p2x2_def factor_x_12 all_factors_def expand_e.simps expand_j.simps
      u64_def MAX_DIVS_def)

lemma prime_nat_5: "prime_nat 5"
proof (rule prime_natI)
  fix d :: nat assume "2 \<le> d" "d < 5"
  then have "d = 2 \<or> d = 3 \<or> d = 4" by auto
  then show "\<not> d dvd 5" by auto
qed simp

theorem get_divisors_prime_witness:
  "get_divisors_p2x2 5 12 =
     Some [1, 2, 4, 8, 16, 3, 6, 12, 24, 48, 9, 18, 36, 72, 144, 5, 10, 20, 40, 80,
           15, 30, 60, 120, 240, 45, 90, 180, 360, 720, 25, 50, 100, 200, 400, 75,
           150, 300, 600, 1200, 225, 450, 900, 1800, 3600]
   \<and> set [1, 2, 4, 8, 16, 3, 6, 12, 24, 48, 9, 18, 36, 72, 144, 5, 10, 20, 40, 80,
           15, 30, 60, 120, 240, 45, 90, 180, 360, 720, 25, 50, 100, 200, 400, 75,
           150, 300, 600, 1200, 225, 450, 900, 1800, 3600] = {d. d dvd (5::nat)\<^sup>2 * 12\<^sup>2}"
proof -
  have h3: "((5::nat) * 12)\<^sup>2 < 2 ^ 64" by simp
  have "card {d. d dvd ((5::nat) * 12)\<^sup>2} \<le> (5 * 12)\<^sup>2" by (rule card_divisors_le) simp
  then have h4: "card {d. d dvd ((5::nat) * 12)\<^sup>2} \<le> MAX_DIVS" by (simp add: MAX_DIVS_def)
  from get_divisors_prime [OF prime_nat_5 _ h3 h4]
  obtain ds where "get_divisors_p2x2 5 12 = Some ds" "set ds = {d. d dvd (5::nat)\<^sup>2 * 12\<^sup>2}"
    by auto
  then show ?thesis unfolding divisors_5_12 by simp
qed

lemma factor_x_1: "factor_x 1 = Some []"
  by (simp add: factor_x_def trial_loop.simps u64_def)

text \<open>
  C2, as stated, fails for a composite \<open>n\<close>: for \<open>n = 4\<close>, \<open>x = 1\<close> the enumerator
  treats 4 as a prime and returns 1, 4, 16; the divisors 2 and 8 of \<open>4\<^sup>2 \<cdot> 1\<^sup>2 = 16\<close>
  are missing.
\<close>

theorem divisors_composite_counterexample:
  "get_divisors_p2x2 4 1 = Some [1, 4, 16] \<and> (2::nat) dvd 4\<^sup>2 * 1\<^sup>2 \<and> 2 \<notin> set [1, 4, 16::nat]"
  unfolding get_divisors_p2x2_def factor_x_1
  by (simp add: all_factors_def expand_e.simps expand_j.simps u64_def MAX_DIVS_def)

section \<open>Verification: a divisor that wraps to zero\<close>

lemma expand_i_prefix:
  assumes "length divs \<le> MAX_DIVS"
  shows "\<exists>r. expand_i divs fs = divs @ r"
proof -
  obtain r where "all_products divs fs = divs @ r" using all_products_prefix by blast
  then have "expand_i divs fs = divs @ take (MAX_DIVS - length divs) r"
    using assms by (simp add: expand_i_eq)
  then show ?thesis by blast
qed

lemma try_div_skip:
  "d1 mod A64 \<noteq> target_mod \<Longrightarrow> try_div n x A nx D A64 target_mod d1 = Some None"
  by (simp add: try_div_def)

lemma try_div_zero:
  "try_div n x A nx D A64 0 0 = None"
  by (simp add: try_div_def)

lemma divs_loop_skip:
  assumes "\<forall>d \<in> set pre. d mod A64 \<noteq> target_mod"
  shows "divs_loop n x A nx D A64 target_mod (pre @ ds) = divs_loop n x A nx D A64 target_mod ds"
  using assms by (induction pre) (simp_all add: try_div_skip)

lemma factor_x_3_2_32: "factor_x 12884901888 = Some [(2, 32), (3, 1)]"
  by (simp add: factor_x_def trial_loop.simps strip_factor.simps u64_def)

lemma powers_of_two_wrap:
  "expand_e [1] 2 64 1 1 0 =
     [1, 2, 4, 8, 16, 32, 64, 128, 256, 512, 1024, 2048, 4096, 8192, 16384,
      32768, 65536, 131072, 262144, 524288, 1048576, 2097152, 4194304, 8388608,
      16777216, 33554432, 67108864, 134217728, 268435456, 536870912, 1073741824,
      2147483648, 4294967296, 8589934592, 17179869184, 34359738368, 68719476736,
      137438953472, 274877906944, 549755813888, 1099511627776, 2199023255552,
      4398046511104, 8796093022208, 17592186044416, 35184372088832,
      70368744177664, 140737488355328, 281474976710656, 562949953421312,
      1125899906842624, 2251799813685248, 4503599627370496, 9007199254740992,
      18014398509481984, 36028797018963968, 72057594037927936,
      144115188075855872, 288230376151711744, 576460752303423488,
      1152921504606846976, 2305843009213693952, 4611686018427387904,
      9223372036854775808] @ [0]"
  by (simp add: expand_e.simps expand_j.simps u64_def MAX_DIVS_def)

lemma powers_then_zero:
  "\<exists>pre. expand_e [1] 2 64 1 1 0 = pre @ [0] \<and> (\<forall>d \<in> set pre. d mod 3 \<noteq> 0)"
  unfolding powers_of_two_wrap by (rule exI, rule conjI, rule refl, simp)

lemma divisors_with_zero:
  "\<exists>pre r. get_divisors_p2x2 51539607549 12884901888 = Some (pre @ 0 # r)
      \<and> (\<forall>d \<in> set pre. d mod 3 \<noteq> 0)"
proof -
  from powers_then_zero obtain pre where
    pre: "expand_e [1] 2 64 1 1 0 = pre @ [0]" "\<forall>d \<in> set pre. d mod 3 \<noteq> 0" by blast
  have af: "all_factors 51539607549 [(2, 32), (3, 1)] = [(2, 64), (3, 2), (51539607549, 2)]"
    by (simp add: all_factors_def)
  have "length (expand_e [1] 2 64 1 1 0) \<le> MAX_DIVS"
    unfolding powers_of_two_wrap by (simp add: MAX_DIVS_def)
  from expand_i_prefix [OF this, of "[(3, 2), (51539607549, 2)]"]
  obtain r where "expand_i (expand_e [1] 2 64 1 1 0) [(3, 2), (51539607549, 2)]
      = expand_e [1] 2 64 1 1 0 @ r" by blast
  moreover have "expand_i [1] [(2, 64), (3, 2), (51539607549, 2)]
      = expand_i (expand_e [1] 2 64 1 1 0) [(3, 2), (51539607549, 2)]"
    by (subst expand_i.simps(2)) (simp add: MAX_DIVS_def del: expand_i.simps)
  ultimately have "expand_i [1] [(2, 64), (3, 2), (51539607549, 2)] = (pre @ [0]) @ r"
    unfolding pre(1) by (rule trans [rotated])
  then have "expand_i [1] [(2, 64), (3, 2), (51539607549, 2)] = pre @ 0 # r"
    by (simp only: append_assoc append_Cons append_Nil)
  moreover have "get_divisors_p2x2 51539607549 12884901888
      = Some (expand_i [1] (all_factors 51539607549 [(2, 32), (3, 1)]))"
    by (simp only: get_divisors_p2x2_def factor_x_3_2_32 option.case)
  ultimately have "get_divisors_p2x2 51539607549 12884901888 = Some (pre @ 0 # r)"
    unfolding af by (simp only:)
  then show ?thesis using pre(2) by blast
qed

lemma search_body_traps: "search_body 51539607549 12884901888 = None"
proof -
  from divisors_with_zero obtain pre r where
    d: "get_divisors_p2x2 51539607549 12884901888 = Some (pre @ 0 # r)"
    and pre: "\<forall>d \<in> set pre. d mod 3 \<noteq> 0" by blast
  have A: "A_of 51539607549 12884901888 = 3" by (simp add: A_of_def u128_def)
  have nx: "u128 (51539607549 * 12884901888) = 664082786614889152512" by (simp add: u128_def)
  have t: "u64 (u64 (3 + 2 ^ 64 - u64 (664082786614889152512 mod 3)) mod 3) = 0"
    by (simp add: u64_def)
  have u3: "u64 3 = 3" by (simp add: u64_def)
  have "divs_loop 51539607549 12884901888 3 664082786614889152512 D 3 0 (pre @ 0 # r) = None"
    for D
    unfolding divs_loop_skip [OF pre] by (simp add: try_div_zero)
  then show ?thesis
    unfolding search_body_def Let_def A nx d u3 t by simp
qed

lemma window_at_trap:
  "x_min_of 51539607549 = 12884901888" "x_max_of 51539607549 = 12884951888"
  by (simp_all add: x_min_of_def x_max_of_def u64_def)

text \<open>
  C3. For \<open>n = 51539607549 = 3 (2^34 - 1)\<close>, which is \<open>1 (mod 4)\<close>, the search starts at
  \<open>x = 3 \<cdot> 2^32\<close> with \<open>A = 3\<close> and target residue 0. The expansion of \<open>2^64\<close> wraps
  the 65th divisor to 0; the 64 divisors before it are powers of two and are skipped;
  the divisor 0 passes both checks and \<open>D / d1\<close> divides by zero. The call returns
  neither a triple nor \<open>found = 0\<close>.
\<close>

theorem search_divides_by_zero:
  "(51539607549::nat) mod 4 = 1 \<and> solve_erdos_straus True 51539607549 = None"
  by (simp add: solve_erdos_straus_def window_at_trap search_x.simps [of _ 12884901888]
      search_body_traps)

text \<open>
  For \<open>n = 2^64 - 3\<close>, also \<open>1 (mod 4)\<close>, the 64-bit sum \<open>n + 3\<close> wraps to 0 and the
  window of the search is \<open>[0, 50000]\<close>, not \<open>[(n+3)/4, (n+3)/4 + 50000]\<close>.
\<close>

lemma window_wraps:
  "x_min_of 18446744073709551613 = 0 \<and> x_max_of 18446744073709551613 = 50000
     \<and> (18446744073709551613 + 3) div 4 = (4611686018427387904::nat)"
  by (simp add: x_min_of_def x_max_of_def u64_def)

section \<open>Verification: the order of the search\<close>

lemma divs_loop_accept:
  assumes "divs_loop n x A nx D A64 t ds = Some (Some yz)"
  shows "\<exists>i. i < length ds \<and> try_div n x A nx D A64 t (ds ! i) = Some (Some yz)
           \<and> (\<forall>j. j < i \<longrightarrow> try_div n x A nx D A64 t (ds ! j) = Some None)"
  using assms
proof (induction ds)
  case Nil
  then show ?case by simp
next
  case (Cons d ds)
  show ?case
  proof (cases "try_div n x A nx D A64 t d = Some None")
    case True
    then have "divs_loop n x A nx D A64 t ds = Some (Some yz)" using Cons.prems by simp
    from Cons.IH [OF this] obtain i where i: "i < length ds"
      "try_div n x A nx D A64 t (ds ! i) = Some (Some yz)"
      "\<forall>j. j < i \<longrightarrow> try_div n x A nx D A64 t (ds ! j) = Some None" by blast
    have "\<forall>j. j < Suc i \<longrightarrow> try_div n x A nx D A64 t ((d # ds) ! j) = Some None"
      using True i(3) by (auto simp: nth_Cons split: nat.splits)
    then have "Suc i < length (d # ds) \<and> try_div n x A nx D A64 t ((d # ds) ! Suc i) = Some (Some yz)
        \<and> (\<forall>j. j < Suc i \<longrightarrow> try_div n x A nx D A64 t ((d # ds) ! j) = Some None)"
      using i(1,2) by simp
    then show ?thesis by blast
  next
    case False
    then have "try_div n x A nx D A64 t d = Some (Some yz)"
      using Cons.prems by (auto split: option.splits)
    then have "0 < length (d # ds) \<and> try_div n x A nx D A64 t ((d # ds) ! 0) = Some (Some yz)
        \<and> (\<forall>j. j < 0 \<longrightarrow> try_div n x A nx D A64 t ((d # ds) ! j) = Some None)"
      by simp
    then show ?thesis by blast
  qed
qed

lemma divs_loop_reject:
  assumes "divs_loop n x A nx D A64 t ds = Some None"
  shows "\<forall>i. i < length ds \<longrightarrow> try_div n x A nx D A64 t (ds ! i) = Some None"
  using assms
proof (induction ds)
  case Nil
  then show ?case by simp
next
  case (Cons d ds)
  then have h: "try_div n x A nx D A64 t d = Some None"
    and t: "divs_loop n x A nx D A64 t ds = Some None"
    by (auto split: option.splits)
  show ?case using h Cons.IH [OF t] by (auto simp: nth_Cons split: nat.splits)
qed

lemma try_div_accept:
  assumes "try_div n x A nx D A64 t d1 = Some (Some (y, z))"
  shows "x \<le> y \<and> y \<le> z \<and> verify128 n x y z \<noteq> 0 \<and> d1 \<noteq> 0 \<and> d1 \<le> nx \<and> d1 mod A64 = t
     \<and> u128 (D div d1 + nx) mod A = 0
     \<and> ((y = u128 (d1 + nx) div A \<and> z = u128 (D div d1 + nx) div A)
         \<or> (z = u128 (d1 + nx) div A \<and> y = u128 (D div d1 + nx) div A))"
  using assms unfolding try_div_def Let_def
  by (auto split: if_splits)

lemma found_set_sol: "found (set_sol s a b c) = 1"
  by (simp add: set_sol_def split: prod.splits)

lemma search_x_returns:
  assumes "search_x n x x_max sol = Some s"
  shows "(s = sol \<and> (\<forall>x'. x \<le> x' \<and> x' \<le> x_max \<longrightarrow> search_body n x' = Some None))
     \<or> (\<exists>x' y z. x \<le> x' \<and> x' \<le> x_max \<and> search_body n x' = Some (Some (y, z))
           \<and> s = set_sol sol x' y z
           \<and> (\<forall>x''. x \<le> x'' \<and> x'' < x' \<longrightarrow> search_body n x'' = Some None))"
  using assms
proof (induction n x x_max sol rule: search_x.induct)
  case (1 n x x_max sol)
  show ?case
  proof (cases "x \<le> x_max")
    case False
    then have "s = sol" using "1.prems" by (subst (asm) search_x.simps) simp
    then show ?thesis using False by auto
  next
    case True
    show ?thesis
    proof (cases "search_body n x")
      case None
      then show ?thesis using "1.prems" True by (subst (asm) search_x.simps) simp
    next
      case (Some r)
      show ?thesis
      proof (cases r)
        case None
        then have b: "search_body n x = Some None" using Some by simp
        then have "search_x n (x + 1) x_max sol = Some s"
          using "1.prems" True by (subst (asm) search_x.simps) simp
        from "1.IH" [OF True b refl this]
        consider "s = sol" "\<forall>x'. x + 1 \<le> x' \<and> x' \<le> x_max \<longrightarrow> search_body n x' = Some None"
          | x' y z where "x + 1 \<le> x'" "x' \<le> x_max" "search_body n x' = Some (Some (y, z))"
            "s = set_sol sol x' y z"
            "\<forall>x''. x + 1 \<le> x'' \<and> x'' < x' \<longrightarrow> search_body n x'' = Some None"
          by blast
        then show ?thesis
        proof cases
          case 1
          have "search_body n x' = Some None" if "x \<le> x'" "x' \<le> x_max" for x'
            using that b 1(2) by (cases "x' = x") auto
          then show ?thesis using 1(1) by blast
        next
          case 2
          have "search_body n x'' = Some None" if "x \<le> x''" "x'' < x'" for x''
            using that b 2(5) by (cases "x'' = x") auto
          moreover have "x \<le> x'" using 2(1) by simp
          ultimately show ?thesis using 2(2,3,4) by blast
        qed
      next
        case (Some yz)
        obtain y z where yz: "yz = (y, z)" by (cases yz)
        have b: "search_body n x = Some (Some (y, z))"
          using Some \<open>search_body n x = Some r\<close> yz by simp
        then have "s = set_sol sol x y z"
          using "1.prems" True by (subst (asm) search_x.simps) simp
        then have "x \<le> x \<and> x \<le> x_max \<and> search_body n x = Some (Some (y, z))
            \<and> s = set_sol sol x y z
            \<and> (\<forall>x''. x \<le> x'' \<and> x'' < x \<longrightarrow> search_body n x'' = Some None)"
          using b True by auto
        then show ?thesis by blast
      qed
    qed
  qed
qed

lemma search_body_accept:
  assumes "search_body n x = Some (Some (y, z))"
  shows "\<exists>divs i t. get_divisors_p2x2 n x = Some divs \<and> i < length divs
      \<and> try_div n x (A_of n x) (u128 (n * x)) (u128 (u128 (n * x) * u128 (n * x)))
            (A64_of n x) t (divs ! i) = Some (Some (y, z))
      \<and> (\<forall>j. j < i \<longrightarrow>
            try_div n x (A_of n x) (u128 (n * x)) (u128 (u128 (n * x) * u128 (n * x)))
              (A64_of n x) t (divs ! j) = Some None)"
proof -
  from assms obtain divs where d: "get_divisors_p2x2 n x = Some divs"
    unfolding search_body_def Let_def by (auto split: if_splits option.splits)
  let ?t = "u64 (u64 (A64_of n x + 2 ^ 64 - u64 (u128 (n * x) mod A_of n x)) mod A64_of n x)"
  have "divs_loop n x (A_of n x) (u128 (n * x)) (u128 (u128 (n * x) * u128 (n * x)))
          (A64_of n x) ?t divs = Some (Some (y, z))"
    using assms d unfolding search_body_def Let_def A64_of_def
    by (auto split: if_splits)
  from divs_loop_accept [OF this] d show ?thesis by blast
qed

text \<open>
  Whenever the call returns for \<open>n = 1 (mod 4)\<close>, \<open>n > 5\<close>, with the buffer allocated:
  either no \<open>x\<close> of the window (in 64-bit arithmetic) gave an accepted candidate and
  \<open>found = 0\<close>, or the result is the first accepted candidate in the order of \<open>x\<close> and,
  within \<open>x\<close>, of the divisor list.
\<close>

lemma search_first_accepted:
  assumes "n mod 4 = 1" "5 < n" "solve_erdos_straus True n = Some s"
  shows "(s = zero_sol \<and> found s = 0
          \<and> (\<forall>x. x_min_of n \<le> x \<and> x \<le> x_max_of n \<longrightarrow> search_body n x = Some None))
     \<or> (\<exists>x y z. x_min_of n \<le> x \<and> x \<le> x_max_of n \<and> search_body n x = Some (Some (y, z))
           \<and> s = set_sol zero_sol x y z \<and> found s = 1
           \<and> (\<forall>x'. x_min_of n \<le> x' \<and> x' < x \<longrightarrow> search_body n x' = Some None))"
proof -
  have "n mod 2 \<noteq> 0" "n mod 4 \<noteq> 3" using assms(1) by presburger+
  then have "search_x n (x_min_of n) (x_max_of n) zero_sol = Some s"
    using assms by (simp add: solve_erdos_straus_def)
  from search_x_returns [OF this]
  consider "s = zero_sol"
      "\<forall>x'. x_min_of n \<le> x' \<and> x' \<le> x_max_of n \<longrightarrow> search_body n x' = Some None"
    | x y z where "x_min_of n \<le> x" "x \<le> x_max_of n" "search_body n x = Some (Some (y, z))"
      "s = set_sol zero_sol x y z"
      "\<forall>x'. x_min_of n \<le> x' \<and> x' < x \<longrightarrow> search_body n x' = Some None"
    by blast
  then show ?thesis
  proof cases
    case 1
    then show ?thesis by (simp add: zero_sol_def)
  next
    case 2
    have "found s = 1" unfolding 2(4) by (rule found_set_sol)
    then show ?thesis using 2 by blast
  qed
qed

section \<open>Verification: what the search guarantees for an accepted triple\<close>

lemma u128_less: "u128 v < 2 ^ 128"
  by (simp add: u128_def)

lemma verify128_cases: "verify128 n a b c = 0 \<or> verify128 n a b c = 1"
  unfolding verify128_eq by simp

text \<open>
  For \<open>n = 1 (mod 4)\<close>, \<open>n > 5\<close>, \<open>n + 3 < 2^64\<close>: a returned triple is \<open>(x, y, z)\<close>
  with \<open>0 < x \<le> y \<le> z\<close>, and it passed the modular verifier. The identity itself is
  only checked modulo the four primes.
\<close>

lemma search_found_verified:
  assumes "n mod 4 = 1" "5 < n" "n + 3 < 2 ^ 64" "solve_erdos_straus True n = Some s"
    "found s = 1"
  shows "\<exists>x y z. sol_a s = x \<and> sol_b s = y \<and> sol_c s = z \<and> 0 < x \<and> x \<le> y \<and> y \<le> z
           \<and> verify128 n x y z = 1"
proof -
  from search_first_accepted [OF assms(1,2,4)] assms(5)
  obtain x y z where x: "x_min_of n \<le> x" and b: "search_body n x = Some (Some (y, z))"
    and s: "s = set_sol zero_sol x y z"
    by auto
  from search_body_accept [OF b] obtain divs i t where
    "try_div n x (A_of n x) (u128 (n * x)) (u128 (u128 (n * x) * u128 (n * x)))
            (A64_of n x) t (divs ! i) = Some (Some (y, z))" by blast
  note acc = try_div_accept [OF this]
  have xy: "x \<le> y" and yz: "y \<le> z" and v: "verify128 n x y z \<noteq> 0" using acc by simp_all
  have "z \<le> u128 (divs ! i + u128 (n * x)) \<or> z \<le> u128 (u128 (u128 (n * x) * u128 (n * x)) div divs ! i + u128 (n * x))"
    using acc by (auto intro: div_le_dividend)
  then have z: "z < 2 ^ 128"
    using u128_less [of "divs ! i + u128 (n * x)"]
      u128_less [of "u128 (u128 (n * x) * u128 (n * x)) div divs ! i + u128 (n * x)"]
    by linarith
  have "4 * x_min_of n = n + 3" using assms(1,3) by (rule window_regular)
  then have "0 < x" using x assms(2) by linarith
  moreover have "verify128 n x y z = 1" using v verify128_cases [of n x y z] by simp
  ultimately show ?thesis
    unfolding s using set_sol_sorted [OF xy yz z, of zero_sol] xy yz by simp
qed

section \<open>Verification: reverse and add where the buffers suffice\<close>

lemma length_add_reverse_loop:
  "- 1 \<le> i \<Longrightarrow> length (snd (add_reverse_loop d len i carry res)) = nat (i + 1) + length res"
proof (induction d len i carry res rule: add_reverse_loop.induct)
  case (1 d len i carry res)
  show ?case
  proof (cases "0 \<le> i")
    case True
    let ?sum = "d ! nat i + d ! nat (len - 1 - i) + carry"
    have "add_reverse_loop d len i carry res
        = add_reverse_loop d len (i - 1) (?sum div 10) ((?sum mod 10) # res)"
      using True by (subst add_reverse_loop.simps) (simp add: Let_def)
    moreover have "length (snd (add_reverse_loop d len (i - 1) (?sum div 10) ((?sum mod 10) # res)))
        = nat (i - 1 + 1) + length ((?sum mod 10) # res)"
      using True by (intro "1.IH" [OF True refl refl]) simp
    ultimately show ?thesis using True by (simp add: nat_add_distrib)
  next
    case False
    then have "i = - 1" using "1.prems" by simp
    then show ?thesis by (subst add_reverse_loop.simps) simp
  qed
qed

lemma length_rev_add_step:
  "length (rev_add_step d) = length d \<or> length (rev_add_step d) = length d + 1"
proof -
  obtain carry res where r: "add_reverse_loop d (int (length d)) (int (length d) - 1) 0 [] = (carry, res)"
    by (cases "add_reverse_loop d (int (length d)) (int (length d) - 1) 0 []")
  have "length (snd (add_reverse_loop d (int (length d)) (int (length d) - 1) 0 []))
      = nat (int (length d) - 1 + 1) + length ([]::nat list)"
    by (rule length_add_reverse_loop) simp
  then have "length res = length d" using r by simp
  then show ?thesis by (simp add: rev_add_step_def add_reverse_def r)
qed

lemma raa_loop_unfold:
  assumes "iter \<le> max_iter" "length cur < MAX_DIGITS" "iter \<noteq> 2 ^ 31 - 1"
  shows "raa_loop cur iter max_iter has_buf sz =
     (if is_pal (rev_add_step cur)
      then Some (iter,
        if has_buf \<and> sz > 0
        then Some (map char_of_digit (take (nat (if int (length (rev_add_step cur)) < sz - 1
                       then int (length (rev_add_step cur)) else sz - 1)) (rev_add_step cur)))
        else None)
      else raa_loop (rev_add_step cur) (iter + 1) max_iter has_buf sz)"
  using assms by (subst raa_loop.simps) (simp add: Let_def is_pal_def rev_add_step_def)

lemma raa_loop_done:
  assumes "\<not> iter \<le> max_iter"
  shows "raa_loop cur iter max_iter has_buf sz = Some (- 1, None)"
  using assms by (subst raa_loop.simps) simp

lemma raa_loop_safe:
  assumes "int (length cur) + (max_iter - iter + 1) \<le> int MAX_DIGITS" "1 \<le> iter"
    "max_iter < 2 ^ 31 - 1"
  shows "\<exists>r b. raa_loop cur iter max_iter has_buf sz = Some (r, b)
     \<and> ((r = - 1 \<and> (\<forall>k. iter \<le> k \<and> k \<le> max_iter
                       \<longrightarrow> \<not> is_pal ((rev_add_step ^^ nat (k - iter + 1)) cur)))
        \<or> (iter \<le> r \<and> r \<le> max_iter \<and> is_pal ((rev_add_step ^^ nat (r - iter + 1)) cur)
            \<and> (\<forall>k. iter \<le> k \<and> k < r
                       \<longrightarrow> \<not> is_pal ((rev_add_step ^^ nat (k - iter + 1)) cur))))"
  using assms
proof (induction "nat (max_iter - iter + 1)" arbitrary: cur iter)
  case 0
  then have "\<not> iter \<le> max_iter" by simp
  then show ?case by (auto simp: raa_loop_done)
next
  case (Suc m)
  then have le: "iter \<le> max_iter" by simp
  have len: "length cur < MAX_DIGITS" using Suc.prems(1) le by simp
  have ne: "iter \<noteq> 2 ^ 31 - 1" using le Suc.prems(3) by simp
  note unf = raa_loop_unfold [OF le len ne]
  have one: "(rev_add_step ^^ nat (iter - iter + 1)) cur = rev_add_step cur" by simp
  show ?case
  proof (cases "is_pal (rev_add_step cur)")
    case True
    have "iter \<le> iter \<and> iter \<le> max_iter \<and> is_pal ((rev_add_step ^^ nat (iter - iter + 1)) cur)
        \<and> (\<forall>k. iter \<le> k \<and> k < iter \<longrightarrow> \<not> is_pal ((rev_add_step ^^ nat (k - iter + 1)) cur))"
      using True le one by auto
    then show ?thesis unfolding unf using True by (simp only: if_True) blast
  next
    case False
    have m: "m = nat (max_iter - (iter + 1) + 1)" using Suc.hyps(2) by simp
    have l2: "int (length (rev_add_step cur)) + (max_iter - (iter + 1) + 1) \<le> int MAX_DIGITS"
      using Suc.prems(1) length_rev_add_step [of cur] by auto
    have i2: "1 \<le> iter + 1" using Suc.prems(2) by simp
    have shift: "(rev_add_step ^^ nat (k - (iter + 1) + 1)) (rev_add_step cur)
        = (rev_add_step ^^ nat (k - iter + 1)) cur" if "iter + 1 \<le> k" for k
    proof -
      have "nat (k - iter + 1) = Suc (nat (k - (iter + 1) + 1))" using that by simp
      then show ?thesis by (simp add: funpow_swap1)
    qed
    from Suc.hyps(1) [OF m l2 i2 Suc.prems(3)]
    obtain r b where rb: "raa_loop (rev_add_step cur) (iter + 1) max_iter has_buf sz = Some (r, b)"
      and cases: "(r = - 1 \<and> (\<forall>k. iter + 1 \<le> k \<and> k \<le> max_iter
                       \<longrightarrow> \<not> is_pal ((rev_add_step ^^ nat (k - (iter + 1) + 1)) (rev_add_step cur))))
        \<or> (iter + 1 \<le> r \<and> r \<le> max_iter
            \<and> is_pal ((rev_add_step ^^ nat (r - (iter + 1) + 1)) (rev_add_step cur))
            \<and> (\<forall>k. iter + 1 \<le> k \<and> k < r
                       \<longrightarrow> \<not> is_pal ((rev_add_step ^^ nat (k - (iter + 1) + 1)) (rev_add_step cur))))"
      by blast
    have first: "\<not> is_pal ((rev_add_step ^^ nat (k - iter + 1)) cur)" if "k = iter" for k
      using that False by simp
    have res: "raa_loop cur iter max_iter has_buf sz = Some (r, b)"
      unfolding unf using False rb by simp
    from cases show ?thesis
    proof
      assume a: "r = - 1 \<and> (\<forall>k. iter + 1 \<le> k \<and> k \<le> max_iter
                       \<longrightarrow> \<not> is_pal ((rev_add_step ^^ nat (k - (iter + 1) + 1)) (rev_add_step cur)))"
      have "\<not> is_pal ((rev_add_step ^^ nat (k - iter + 1)) cur)" if "iter \<le> k" "k \<le> max_iter" for k
      proof (cases "k = iter")
        case True
        then show ?thesis by (rule first)
      next
        case False
        then have "iter + 1 \<le> k" using that by simp
        then show ?thesis using a that shift [of k] by auto
      qed
      then show ?thesis using res a by blast
    next
      assume a: "iter + 1 \<le> r \<and> r \<le> max_iter
            \<and> is_pal ((rev_add_step ^^ nat (r - (iter + 1) + 1)) (rev_add_step cur))
            \<and> (\<forall>k. iter + 1 \<le> k \<and> k < r
                       \<longrightarrow> \<not> is_pal ((rev_add_step ^^ nat (k - (iter + 1) + 1)) (rev_add_step cur)))"
      have "\<not> is_pal ((rev_add_step ^^ nat (k - iter + 1)) cur)" if "iter \<le> k" "k < r" for k
      proof (cases "k = iter")
        case True
        then show ?thesis by (rule first)
      next
        case False
        then have "iter + 1 \<le> k" using that by simp
        then show ?thesis using a that shift [of k] by auto
      qed
      moreover have "is_pal ((rev_add_step ^^ nat (r - iter + 1)) cur)"
        using a shift [of r] by auto
      moreover have "iter \<le> r" using a by simp
      ultimately show ?thesis using res a by blast
    qed
  qed
qed

lemma raa_loop_nonzero:
  "raa_loop cur iter max_iter has_buf sz = Some (r, b) \<Longrightarrow> 1 \<le> iter \<Longrightarrow> r \<noteq> 0"
proof (induction cur iter max_iter has_buf sz rule: raa_loop.induct)
  case (1 cur iter max_iter has_buf sz)
  show ?case
  proof (cases "iter \<le> max_iter")
    case False
    then show ?thesis using "1.prems" by (simp add: raa_loop_done)
  next
    case True
    then have len: "length cur < MAX_DIGITS"
      using "1.prems"(1) by (subst (asm) raa_loop.simps) (simp split: if_splits)
    let ?nxt = "add_reverse cur (int (length cur))"
    show ?thesis
    proof (cases "is_palindrome ?nxt (int (length ?nxt)) \<noteq> 0")
      case p: True
      then have "r = iter"
        using "1.prems"(1) True len by (subst (asm) raa_loop.simps) (simp add: Let_def)
      then show ?thesis using "1.prems"(2) by simp
    next
      case p: False
      then have ne: "iter \<noteq> 2 ^ 31 - 1"
        using "1.prems"(1) True len
        by (subst (asm) raa_loop.simps) (simp add: Let_def split: if_splits)
      then have "raa_loop ?nxt (iter + 1) max_iter has_buf sz = Some (r, b)"
        using "1.prems"(1) True len p by (subst (asm) raa_loop.simps) (simp add: Let_def)
      moreover have "1 \<le> iter + 1" using "1.prems"(2) by simp
      ultimately show ?thesis
        using "1.IH" [OF True _ refl refl p ne] len by simp
    qed
  qed
qed

text \<open>
  Where the buffers suffice the function behaves as documented: a string of at least
  4096 characters gives \<open>-2\<close>; a shorter string whose length plus \<open>max_iter\<close> is at most
  4096 gives the number of the first step that produces a palindrome, between 1 and
  \<open>max_iter\<close>, or \<open>-1\<close> when no step up to \<open>max_iter\<close> does. The result is never 0.
\<close>

lemma reverse_and_add_count_too_long:
  assumes "MAX_DIGITS \<le> length s" "length s < 2 ^ 31"
  shows "reverse_and_add_count s max_iter has_buf sz = Some (- 2, None)"
proof -
  have "length s mod 2 ^ 32 = length s" using assms(2) by simp
  then show ?thesis
    using assms by (simp add: reverse_and_add_count_def int_of_size_def Let_def)
qed

lemma reverse_and_add_count_safe:
  assumes "length s < MAX_DIGITS" "int (length s) + max_iter \<le> int MAX_DIGITS"
  shows "\<exists>r b. reverse_and_add_count s max_iter has_buf sz = Some (r, b)
     \<and> ((r = - 1 \<and> (\<forall>k. 1 \<le> k \<and> k \<le> max_iter
                       \<longrightarrow> \<not> is_pal ((rev_add_step ^^ nat k) (map digit_of_char s))))
        \<or> (1 \<le> r \<and> r \<le> max_iter \<and> is_pal ((rev_add_step ^^ nat r) (map digit_of_char s))
            \<and> (\<forall>k. 1 \<le> k \<and> k < r
                       \<longrightarrow> \<not> is_pal ((rev_add_step ^^ nat k) (map digit_of_char s)))))"
proof -
  have l: "length s < 4096" using assms(1) by (simp add: MAX_DIGITS_def)
  then have "length s mod 2 ^ 32 = length s" by simp
  then have sz: "int_of_size (length s) = int (length s)" using l by (simp add: int_of_size_def)
  have call: "reverse_and_add_count s max_iter has_buf sz
      = raa_loop (map digit_of_char s) 1 max_iter has_buf sz"
    using assms(1) by (simp add: reverse_and_add_count_def sz)
  have a: "int (length (map digit_of_char s)) + (max_iter - 1 + 1) \<le> int MAX_DIGITS"
    using assms(2) by simp
  have b: "max_iter < 2 ^ 31 - 1" using assms(2) by (simp add: MAX_DIGITS_def)
  from raa_loop_safe [OF a _ b, of has_buf sz] show ?thesis
    unfolding call by simp
qed

lemma reverse_and_add_count_nonzero:
  "reverse_and_add_count s max_iter has_buf sz \<noteq> Some (0, b)"
proof
  assume a: "reverse_and_add_count s max_iter has_buf sz = Some (0, b)"
  let ?len = "int_of_size (length s)"
  have "raa_loop (map digit_of_char (take (nat ?len) s)) 1 max_iter has_buf sz = Some (0, b)"
    using a unfolding reverse_and_add_count_def Let_def by (simp split: if_splits)
  from raa_loop_nonzero [OF this] show False by simp
qed

section \<open>Verification: reverse and add beyond the buffers\<close>

lemma add_reverse_loop_nines:
  assumes "k \<le> n"
  shows "add_reverse_loop (replicate n 9) (int n) (int k - 1) 1 res = (1, replicate k 9 @ res)"
  using assms
proof (induction k arbitrary: res)
  case 0
  show ?case by (simp add: add_reverse_loop.simps [of _ _ "- 1"])
next
  case (Suc k)
  then have k: "k < n" "k \<le> n" by simp_all
  have j: "nat (int n - 1 - int k) < n" using k by linarith
  have "add_reverse_loop (replicate n 9) (int n) (int (Suc k) - 1) 1 res
        = add_reverse_loop (replicate n 9) (int n) (int k - 1) 1 (9 # res)"
    using k j by (subst add_reverse_loop.simps) (simp add: Let_def)
  also have "\<dots> = (1, replicate k 9 @ (9 # res))" by (rule Suc.IH [OF k(2)])
  finally show ?case by (simp add: replicate_app_Cons_same)
qed

lemma add_reverse_nines:
  assumes "0 < n"
  shows "add_reverse (replicate n 9) (int n) = 1 # replicate (n - 1) 9 @ [8]"
proof -
  have i: "nat (int n - 1) < n" "nat (int n - 1 - (int n - 1)) < n" "0 \<le> int n - 1"
    using assms by simp_all
  have s1: "add_reverse_loop (replicate n 9) (int n) (int n - 1) 0 []
        = add_reverse_loop (replicate n 9) (int n) (int n - 1 - 1) 1 [8]"
    by (subst add_reverse_loop.simps) (simp only: i nth_replicate Let_def, simp)
  have s2: "int n - 1 - 1 = int (n - 1) - 1" using assms by simp
  have s3: "add_reverse_loop (replicate n 9) (int n) (int (n - 1) - 1) 1 [8]
       = (1, replicate (n - 1) 9 @ [8])"
    by (rule add_reverse_loop_nines) simp
  have "add_reverse_loop (replicate n 9) (int n) (int n - 1) 0 [] = (1, replicate (n - 1) 9 @ [8])"
    unfolding s1 s2 s3 ..
  then show ?thesis unfolding add_reverse_def by simp
qed

lemma not_palindrome_nines:
  assumes "0 < n"
  shows "is_palindrome (1 # replicate (n - 1) 9 @ [8]) (int n + 1) = 0"
proof -
  have "(1 # replicate (n - 1) 9 @ [8]) ! n = (8::nat)"
    using assms by (simp add: nth_Cons' nth_append)
  then show ?thesis
    using assms unfolding is_palindrome_def
    by (subst is_palindrome_loop.simps) simp
qed

lemma raa_loop_step:
  assumes "iter \<le> max_iter" "length cur < MAX_DIGITS"
    and "is_palindrome (add_reverse cur (int (length cur)))
           (int (length (add_reverse cur (int (length cur))))) = 0"
    and "iter \<noteq> 2 ^ 31 - 1"
  shows "raa_loop cur iter max_iter has_buf sz
           = raa_loop (add_reverse cur (int (length cur))) (iter + 1) max_iter has_buf sz"
  by (subst raa_loop.simps) (simp only: assms Let_def, simp)

lemma raa_loop_overrun:
  assumes "iter \<le> max_iter" "\<not> length cur < MAX_DIGITS"
  shows "raa_loop cur iter max_iter has_buf sz = None"
  by (subst raa_loop.simps) (simp only: assms, simp)

lemma raa_loop_nines:
  "raa_loop (replicate 4095 9) 1 2 has_buf sz = None"
proof -
  let ?cur = "replicate 4095 (9::nat)"
  let ?nxt = "1 # replicate 4094 9 @ [8::nat]"
  have len: "int (length ?cur) = 4095" by simp
  have nxt: "add_reverse ?cur 4095 = ?nxt"
    using add_reverse_nines [of 4095] by simp
  have pal: "is_palindrome ?nxt (int (length ?nxt)) = 0"
    using not_palindrome_nines [of 4095] by simp
  have "raa_loop ?cur 1 2 has_buf sz
          = raa_loop (add_reverse ?cur (int (length ?cur))) (1 + 1) 2 has_buf sz"
  proof (rule raa_loop_step)
    show "is_palindrome (add_reverse ?cur (int (length ?cur)))
            (int (length (add_reverse ?cur (int (length ?cur))))) = 0"
      unfolding len nxt by (rule pal)
  qed (simp_all add: MAX_DIGITS_def)
  also have "\<dots> = raa_loop ?nxt 2 2 has_buf sz"
    unfolding len nxt by simp
  also have "\<dots> = None"
    by (rule raa_loop_overrun) (simp_all add: MAX_DIGITS_def)
  finally show ?thesis .
qed

lemma digit_nine: "digit_of_char CHR ''9'' = 9"
  by (simp add: digit_of_char_def)

text \<open>
  C10. For the string of 4095 digits \<open>9\<close> and \<open>max_iter = 2\<close> the function returns
  nothing: the length 4095 passes the check against \<open>MAX_DIGITS\<close>, the first step
  produces the 4096 digits \<open>1 9 ... 9 8\<close>, which are not a palindrome, and the second
  call of \<open>add_reverse\<close> stores to \<open>result[4096]\<close>, outside the 4096-entry array.
\<close>

theorem buffer_overrun_nines:
  "reverse_and_add_count (replicate 4095 CHR ''9'') 2 has_buf sz = None"
  by (simp add: reverse_and_add_count_def int_of_size_def MAX_DIGITS_def digit_nine raa_loop_nines)

end
